theory Spec2Isabelle
  imports Main
begin

section \<open>JavaScript strings\<close>

text \<open>
  A JavaScript string is modelled as a \<open>string\<close> (a list of characters), one character
  per UTF-16 code unit, so that \<open>length\<close> is the \<^verbatim>\<open>.length\<close> of the source. The type
  \<open>char\<close> holds the code units from 0 to 255.
\<close>

text \<open>\<^verbatim>\<open>parts.join(sep)\<close>\<close>

fun join :: "string \<Rightarrow> string list \<Rightarrow> string" where
  "join sep [] = []"
| "join sep [x] = x"
| "join sep (x # y # ys) = x @ sep @ join sep (y # ys)"

text \<open>\<^verbatim>\<open>s.slice(0, n)\<close> for a non-negative \<open>n\<close>\<close>

definition slice0 :: "nat \<Rightarrow> string \<Rightarrow> string" where
  "slice0 n s = take n s"

text \<open>\<^verbatim>\<open>s.split(" ")\<close>: the pieces between single separator characters, empty pieces kept\<close>

fun split :: "char \<Rightarrow> string \<Rightarrow> string list" where
  "split sep [] = [[]]"
| "split sep (c # cs) =
     (if c = sep then [] # split sep cs
      else (case split sep cs of
              [] \<Rightarrow> [[c]]
            | p # ps \<Rightarrow> (c # p) # ps))"

text \<open>
  The white space and line terminators that \<^verbatim>\<open>trim()\<close> strips, among the code units
  from 0 to 255: tab, line feed, vertical tab, form feed, carriage return, space and the
  no-break space U+00A0.
\<close>

definition isSpace :: "char \<Rightarrow> bool" where
  "isSpace c = (c = CHR '' '' \<or> c = CHR 0x09 \<or> c = CHR 0x0A \<or> c = CHR 0x0B
                \<or> c = CHR 0x0C \<or> c = CHR 0x0D \<or> c = CHR 0xA0)"

definition trim :: "string \<Rightarrow> string" where
  "trim s = rev (dropWhile isSpace (rev (dropWhile isSpace s)))"

text \<open>\<^verbatim>\<open>s.startsWith(p)\<close> and \<^verbatim>\<open>s.includes(p)\<close>\<close>

fun startsWith :: "string \<Rightarrow> string \<Rightarrow> bool" where
  "startsWith s [] = True"
| "startsWith [] (p # ps) = False"
| "startsWith (c # cs) (p # ps) = (c = p \<and> startsWith cs ps)"

fun includesStr :: "string \<Rightarrow> string \<Rightarrow> bool" where
  "includesStr [] p = (p = [])"
| "includesStr (c # cs) p = (startsWith (c # cs) p \<or> includesStr cs p)"


section \<open>Violation records and the violation key\<close>

text \<open>
  The \<^verbatim>\<open>impact\<close> of an axe-core \<^verbatim>\<open>Result\<close> is optional and may be \<^verbatim>\<open>null\<close>:
  \<^verbatim>\<open>impact?: 'minor' | 'moderate' | 'serious' | 'critical' | null\<close>.
\<close>

datatype impact_value = ImpactStr string | ImpactNull | ImpactUndefined

text \<open>What a template literal \<^verbatim>\<open>${impact}\<close> prints\<close>

fun impactText :: "impact_value \<Rightarrow> string" where
  "impactText (ImpactStr s) = s"
| "impactText ImpactNull = ''null''"
| "impactText ImpactUndefined = ''undefined''"

text \<open>\<^verbatim>\<open>impact || "unknown"\<close>: the empty string is falsy as well\<close>

fun impactOrUnknown :: "impact_value \<Rightarrow> string" where
  "impactOrUnknown (ImpactStr s) = (if s = [] then ''unknown'' else s)"
| "impactOrUnknown ImpactNull = ''unknown''"
| "impactOrUnknown ImpactUndefined = ''unknown''"

record NodeResult =
  html :: string
  target :: "string list"

record 'e LogNode = NodeResult +
  element :: "'e option"

text \<open>
  One record type serves the scanner's \<^verbatim>\<open>Result\<close> and the stored
  \<^verbatim>\<open>ViolationLogEntry\<close>; they differ in the type of \<open>impact\<close> and of the nodes.
\<close>

record ('i, 'n) Violation =
  id' :: string
  impact :: 'i
  description :: string
  help' :: string
  helpUrl :: string
  nodes :: "'n list"

type_synonym Result = "(impact_value, NodeResult) Violation"
type_synonym 'e ViolationLogEntry = "(string, 'e LogNode) Violation"

text \<open>
  \<^verbatim>\<open>createViolationKey\<close>:
  \<^verbatim>\<open>`${v.id}:${v.impact}:${v.nodes.map((n) => n.target.join(",").slice(0, 50)).join("|")}`\<close>
\<close>

definition targetSegment :: "NodeResult \<Rightarrow> string" where
  "targetSegment n = slice0 50 (join '','' (target n))"

definition targetComponent :: "Result \<Rightarrow> string" where
  "targetComponent v = join ''|'' (map targetSegment (nodes v))"

definition createViolationKey :: "Result \<Rightarrow> string" where
  "createViolationKey v =
     id' v @ '':'' @ impactText (impact v) @ '':'' @ targetComponent v"

text \<open>
  The cast \<^verbatim>\<open>v as Result\<close> of a stored entry: the same object read as a \<^verbatim>\<open>Result\<close>,
  its \<open>impact\<close> being the string stored at normalisation.
\<close>

definition asResult :: "'e ViolationLogEntry \<Rightarrow> Result" where
  "asResult v =
     \<lparr> id' = id' v, impact = ImpactStr (impact v), description = description v,
       help' = help' v, helpUrl = helpUrl v,
       nodes = map (\<lambda>n. \<lparr> html = html n, target = target n \<rparr>) (nodes v) \<rparr>"


section \<open>The violation differ (\<^verbatim>\<open>logViolations\<close>)\<close>

text \<open>
  \<open>locate n\<close> stands for \<^verbatim>\<open>findElementInShadowDOM(n.target[0], n.html) || undefined\<close>
  on the document as it is when the results are logged.
\<close>

definition toLogEntry :: "(NodeResult \<Rightarrow> 'e option) \<Rightarrow> Result \<Rightarrow> 'e ViolationLogEntry" where
  "toLogEntry locate v =
     \<lparr> id' = id' v, impact = impactOrUnknown (impact v), description = description v,
       help' = help' v, helpUrl = helpUrl v,
       nodes = map (\<lambda>n. \<lparr> html = html n, target = target n, element = locate n \<rparr>) (nodes v) \<rparr>"

definition newViolations :: "'e ViolationLogEntry list \<Rightarrow> Result list \<Rightarrow> Result list" where
  "newViolations previousViolations results =
     (let previousKeys = map (\<lambda>v. createViolationKey (asResult v)) previousViolations
      in filter (\<lambda>v. createViolationKey v \<notin> set previousKeys) results)"

definition resolvedViolations ::
  "'e ViolationLogEntry list \<Rightarrow> Result list \<Rightarrow> 'e ViolationLogEntry list" where
  "resolvedViolations previousViolations results =
     (let currentKeys = map createViolationKey results
      in filter (\<lambda>v. createViolationKey (asResult v) \<notin> set currentKeys)
           previousViolations)"

text \<open>
  A thrown value: an \<^verbatim>\<open>Error\<close> object with its message, or anything else.
\<close>

datatype thrown = JsError string | NonError

text \<open>The console output, without its styling\<close>

datatype console =
    NoViolationsFound
  | ViolationsFound nat
  | ViolationDetails Result
  | ScanUpdate
  | ResolvedCount nat
  | NewCount nat
  | TotalCount nat
  | NewDetails nat
  | AllResolved nat
  | NoNewViolations
  | WarnTargetMissing
  | WarnReadinessTimeout
  | ErrorRunningScan thrown
  | ErrorQueuedScan thrown

text \<open>
  What one call of \<^verbatim>\<open>logViolations\<close> leaves behind: the entries stored in
  \<^verbatim>\<open>violations.value\<close> and in \<^verbatim>\<open>previousViolations\<close>, the violations reported as
  new (each passed to \<^verbatim>\<open>logViolationDetails\<close>), those reported as resolved, and the
  console lines.
\<close>

record 'e Reconciled =
  current :: "'e ViolationLogEntry list"
  previous :: "'e ViolationLogEntry list"
  added :: "Result list"
  removed :: "'e ViolationLogEntry list"
  logged :: "console list"

definition logViolations ::
  "(NodeResult \<Rightarrow> 'e option) \<Rightarrow> Result list \<Rightarrow> bool \<Rightarrow> 'e ViolationLogEntry list
     \<Rightarrow> 'e Reconciled" where
  "logViolations locate results isInitialScan previousViolations =
     (let violations = map (toLogEntry locate) results in
      if isInitialScan \<or> length previousViolations = 0 then
        \<lparr> current = violations, previous = violations,
          added = results, removed = [],
          logged = (if length results = 0 then [NoViolationsFound]
                    else ViolationsFound (length results) # map ViolationDetails results) \<rparr>
      else
        let new = newViolations previousViolations results;
            resolved = resolvedViolations previousViolations results
        in \<lparr> current = violations, previous = violations,
             added = new, removed = resolved,
             logged =
               (if length new > 0 \<or> length resolved > 0 then
                  [ScanUpdate]
                  @ (if length resolved > 0 then [ResolvedCount (length resolved)] else [])
                  @ (if length new > 0 then [NewCount (length new)] else [])
                  @ [TotalCount (length results)]
                  @ (if length new > 0
                     then NewDetails (length new) # map ViolationDetails new else [])
                else if length results = 0 \<and> length previousViolations > 0 then
                  [AllResolved (length previousViolations)]
                else if length results = 0 then [NoNewViolations]
                else []) \<rparr>)"


section \<open>The document\<close>

text \<open>
  A document tree: text nodes and elements with a tag name, attributes, child nodes and
  an optional (open) shadow root, itself a list of nodes. The \<^verbatim>\<open>document\<close> is an
  element without attributes and shadow root whose only child is the root element. An
  element reference is the element's subtree.
\<close>

datatype node =
    Text string
  | Element string "(string \<times> string) list" "node list" "node list option"

fun isElement :: "node \<Rightarrow> bool" where
  "isElement (Text s) = False"
| "isElement (Element t a ks sh) = True"

fun shadowRoot :: "node \<Rightarrow> node list option" where
  "shadowRoot (Text s) = None"
| "shadowRoot (Element t a ks sh) = sh"

fun getAttribute :: "node \<Rightarrow> string \<Rightarrow> string option" where
  "getAttribute (Text s) name = None"
| "getAttribute (Element t a ks sh) name = map_of a name"

fun tagName :: "node \<Rightarrow> string" where
  "tagName (Text s) = []"
| "tagName (Element t a ks sh) = t"

fun childNodes :: "node \<Rightarrow> node list" where
  "childNodes (Text s) = []"
| "childNodes (Element t a ks sh) = ks"

fun textContent :: "node \<Rightarrow> string" where
  "textContent (Text s) = s"
| "textContent (Element t a ks sh) = concat (map textContent ks)"

text \<open>
  \<^verbatim>\<open>root.querySelectorAll("*")\<close>: the elements below a root in document order. A query
  never enters a shadow root.
\<close>

fun elementsOf :: "node \<Rightarrow> node list" where
  "elementsOf (Text s) = []"
| "elementsOf (Element t a ks sh) = Element t a ks sh # concat (map elementsOf ks)"

definition descendants :: "node list \<Rightarrow> node list" where
  "descendants ks = concat (map elementsOf ks)"

section \<open>The shadow-boundary locator\<close>



text \<open>
  \<^verbatim>\<open>const el = a; if (el) return el; b\<close>: an element found is returned, an exception
  propagates, and only a miss goes on.
\<close>

definition orElse :: "thrown + 'a option \<Rightarrow> thrown + 'a option \<Rightarrow> thrown + 'a option" where
  "orElse a b = (case a of Inl e \<Rightarrow> Inl e | Inr (Some x) \<Rightarrow> Inr (Some x) | Inr None \<Rightarrow> b)"



text \<open>The six attempts of \<^verbatim>\<open>findByHtmlContent\<close>, in the order of the source\<close>














section \<open>The readiness gate\<close>

definition meaningfulTags :: "string list" where
  "meaningfulTags = [''button'', ''input'', ''a'', ''img'', ''canvas'', ''video'', ''audio'']"

definition meaningfulAttributes :: "string list" where
  "meaningfulAttributes = [''role'', ''aria-label'', ''tabindex'']"

text \<open>
  An element matched by
  \<^verbatim>\<open>button, input, a, img, canvas, video, audio, [role], [aria-label], [tabindex]\<close>
  (tag names in lower case, as in an HTML document)
\<close>

definition isMeaningful :: "node \<Rightarrow> bool" where
  "isMeaningful el =
     (tagName el \<in> set meaningfulTags
      \<or> list_ex (\<lambda>a. getAttribute el a \<noteq> None) meaningfulAttributes)"

text \<open>\<^verbatim>\<open>el.shadowRoot && el.shadowRoot.children.length > 0\<close>\<close>

definition hasShadowContent :: "node \<Rightarrow> bool" where
  "hasShadowContent el =
     (case shadowRoot el of
        None \<Rightarrow> False
      | Some shadow \<Rightarrow> length (filter isElement shadow) > 0)"

definition hasContentReady :: "bool \<Rightarrow> node \<Rightarrow> bool" where
  "hasContentReady waitForContent targetElement =
     (if \<not> waitForContent then True
      else if length (filter isMeaningful (descendants (childNodes targetElement))) > 0 then True
      else if length (trim (textContent targetElement)) > 10 then True
      else list_ex hasShadowContent (descendants (childNodes targetElement)))"

text \<open>
  The promise of \<^verbatim>\<open>waitForContentReadiness\<close>: the value it resolved with (\<open>None\<close> while
  it is pending), the warnings it logged and the delays of the timers it set.
\<close>

record Gate =
  resolved :: "bool option"
  warnings :: "console list"
  timeouts :: "nat list"

text \<open>
  \<^verbatim>\<open>checkContent\<close> runs once per poll. A poll observes the target as it is then and
  the clock \<^verbatim>\<open>Date.now()\<close>; the polls still to come are the rest of the list.
\<close>

fun checkContent :: "bool \<Rightarrow> int \<Rightarrow> int \<Rightarrow> (node \<times> int) list \<Rightarrow> Gate" where
  "checkContent waitForContent maxWaitTime startTime [] =
     \<lparr> resolved = None, warnings = [], timeouts = [] \<rparr>"
| "checkContent waitForContent maxWaitTime startTime ((targetElement, now) # later) =
     (if hasContentReady waitForContent targetElement then
        \<lparr> resolved = Some True, warnings = [], timeouts = [] \<rparr>
      else if now - startTime \<ge> maxWaitTime then
        \<lparr> resolved = Some False, warnings = [WarnReadinessTimeout], timeouts = [] \<rparr>
      else
        (let g = checkContent waitForContent maxWaitTime startTime later
         in g \<lparr> timeouts := 100 # timeouts g \<rparr>))"

text \<open>\<open>maxWaitTime\<close> is an optional argument with the default 5000.\<close>

definition waitForContentReadiness ::
  "bool \<Rightarrow> int option \<Rightarrow> int \<Rightarrow> (node \<times> int) list \<Rightarrow> Gate" where
  "waitForContentReadiness waitForContent maxWaitTime startTime polls =
     (if \<not> waitForContent then \<lparr> resolved = Some True, warnings = [], timeouts = [] \<rparr>
      else checkContent waitForContent (case maxWaitTime of None \<Rightarrow> 5000 | Some m \<Rightarrow> m)
             startTime polls)"


text \<open>A violation whose \<open>impact\<close> is a non-empty string\<close>

definition impactPresent :: "Result \<Rightarrow> bool" where
  "impactPresent v = (case impact v of ImpactStr s \<Rightarrow> s \<noteq> [] | _ \<Rightarrow> False)"


section \<open>The composable and the process-wide state\<close>

type_synonym inst_id = nat

text \<open>The options of \<^verbatim>\<open>useAccessibility\<close> that the modelled functions read\<close>

record options =
  enabled :: bool
  enableHighlighting :: bool
  watchForChanges :: bool
  watchInteractions :: bool
  waitForContent :: bool

text \<open>The variables of one \<^verbatim>\<open>useAccessibility\<close> closure\<close>

record session = options +
  hasRunInitialScan :: bool
  isRunning :: bool
  violations :: "node ViolationLogEntry list"
  previousViolations :: "node ViolationLogEntry list"
  mutationObserver :: bool
  interactionListeners :: "string list"

definition useAccessibility :: "options \<Rightarrow> session" where
  "useAccessibility opts =
     \<lparr> enabled = enabled opts, enableHighlighting = enableHighlighting opts,
       watchForChanges = watchForChanges opts, watchInteractions = watchInteractions opts,
       waitForContent = waitForContent opts,
       hasRunInitialScan = False, isRunning = False, violations = [],
       previousViolations = [], mutationObserver = False, interactionListeners = [] \<rparr>"

text \<open>\<^verbatim>\<open>getBoundingClientRect()\<close> and the overlay element built from it\<close>

record DOMRect =
  rectTop :: int
  rectLeft :: int
  rectWidth :: int
  rectHeight :: int

record overlay =
  nodeId :: nat
  elementId :: string
  position :: string
  styleTop :: int
  styleLeft :: int
  styleWidth :: int
  styleHeight :: int
  pointerEvents :: string
  zIndex :: int

text \<open>
  A queued thunk is the closure \<^verbatim>\<open>queuedRun\<close> of one \<^verbatim>\<open>runAxe\<close> call: it captures
  the instance and \<^verbatim>\<open>isInitialScan\<close>.
\<close>

type_synonym thunk = "inst_id \<times> bool"

text \<open>
  Where an execution of \<^verbatim>\<open>queuedRun\<close> is suspended (at one of its three
  \<^verbatim>\<open>await\<close>s), or how its promise has settled.
\<close>

datatype phase = AwaitImport | AwaitReadiness | AwaitScan | Fulfilled | Rejected thrown

fun isSettled :: "phase \<Rightarrow> bool" where
  "isSettled Fulfilled = True"
| "isSettled (Rejected e) = True"
| "isSettled ph = False"

text \<open>How a stretch of code between two suspension points ends\<close>

datatype completion = Suspended phase | Returned | Threw thrown

datatype timer = RetryInitialScan inst_id | ActivateWatchers inst_id

text \<open>
  The module-level variables (\<open>isAxeRunning\<close>, \<open>axeInstances\<close>, \<open>highlightedElement\<close>,
  \<open>axeQueue\<close>, \<open>isProcessingQueue\<close>), the closures, and what the event loop holds: the
  overlay elements attached to \<^verbatim>\<open>document.body\<close>, the suspended invocations of
  \<^verbatim>\<open>processAxeQueue\<close> (each awaiting one thunk), the console, the timers set with their
  delays. The last four fields are history: the thunks in the order in which they were
  pushed, started and settled, and the thunks that called the scanner.
\<close>

record world =
  isAxeRunning :: bool
  axeInstances :: "inst_id set"
  highlightedElement :: "overlay option"
  axeQueue :: "thunk list"
  isProcessingQueue :: bool
  instances :: "inst_id \<Rightarrow> session"
  bodyOverlays :: "overlay list"
  nextNodeId :: nat
  drains :: "(thunk \<times> phase) list"
  consoleOut :: "console list"
  timers :: "(nat \<times> timer) list"
  submitted :: "thunk list"
  started :: "thunk list"
  finished :: "thunk list"
  scans :: "thunk list"

definition initialWorld :: "(inst_id \<Rightarrow> options) \<Rightarrow> world" where
  "initialWorld opts =
     \<lparr> isAxeRunning = False, axeInstances = {}, highlightedElement = None, axeQueue = [],
       isProcessingQueue = False, instances = (\<lambda>i. useAccessibility (opts i)),
       bodyOverlays = [], nextNodeId = 0, drains = [], consoleOut = [], timers = [],
       submitted = [], started = [], finished = [], scans = [] \<rparr>"

definition updateInstance :: "inst_id \<Rightarrow> (session \<Rightarrow> session) \<Rightarrow> world \<Rightarrow> world" where
  "updateInstance i f w = w \<lparr> instances := (instances w) (i := f (instances w i)) \<rparr>"


section \<open>The highlight overlay\<close>

text \<open>\<^verbatim>\<open>highlightedElement.remove()\<close> detaches that one node from the body.\<close>

definition removeHighlight :: "world \<Rightarrow> world" where
  "removeHighlight w =
     (case highlightedElement w of
        None \<Rightarrow> w
      | Some h \<Rightarrow>
          w \<lparr> bodyOverlays := filter (\<lambda>n. nodeId n \<noteq> nodeId h) (bodyOverlays w),
              highlightedElement := None \<rparr>)"

definition highlightElement :: "inst_id \<Rightarrow> DOMRect \<Rightarrow> world \<Rightarrow> world" where
  "highlightElement i rect w =
     (if \<not> enableHighlighting (instances w i) then w
      else
        (let w1 = removeHighlight w;
             highlight =
               \<lparr> nodeId = nextNodeId w1, elementId = ''axe-highlight-overlay'',
                 position = ''fixed'', styleTop = rectTop rect, styleLeft = rectLeft rect,
                 styleWidth = rectWidth rect, styleHeight = rectHeight rect,
                 pointerEvents = ''none'', zIndex = 10000 \<rparr>
         in w1 \<lparr> bodyOverlays := bodyOverlays w1 @ [highlight],
                 highlightedElement := Some highlight,
                 nextNodeId := Suc (nextNodeId w1) \<rparr>))"


section \<open>The change watchers and \<^verbatim>\<open>cleanup\<close>\<close>

definition setupMutationObserver :: "bool \<Rightarrow> session \<Rightarrow> session" where
  "setupMutationObserver targetPresent inst =
     (if \<not> watchForChanges inst \<or> mutationObserver inst then inst
      else if \<not> targetPresent then inst
      else inst \<lparr> mutationObserver := True \<rparr>)"

definition setupInteractionListeners :: "bool \<Rightarrow> session \<Rightarrow> session" where
  "setupInteractionListeners targetPresent inst =
     (if \<not> watchInteractions inst then inst
      else if \<not> targetPresent then inst
      else inst \<lparr> interactionListeners := interactionListeners inst
                      @ [''click'', ''focus'', ''blur'', ''change'', ''input'', ''keydown''] \<rparr>)"

definition cleanup :: "inst_id \<Rightarrow> world \<Rightarrow> world" where
  "cleanup i w =
     (let w1 = w \<lparr> axeInstances := axeInstances w - {i} \<rparr>;
          w2 = removeHighlight w1;
          w3 = updateInstance i
                 (\<lambda>inst. inst \<lparr> mutationObserver := False, interactionListeners := [] \<rparr>) w2
      in if axeInstances w3 = {} then w3 \<lparr> isAxeRunning := False \<rparr> else w3)"


section \<open>The scan scheduler\<close>

text \<open>The \<^verbatim>\<open>catch\<close> and \<^verbatim>\<open>finally\<close> blocks of \<^verbatim>\<open>queuedRun\<close>\<close>

fun catchBlock :: "thunk \<Rightarrow> thrown \<Rightarrow> world \<Rightarrow> completion \<times> world" where
  "catchBlock (i, isInitialScan) (JsError message) w =
     (if includesStr message ''Axe is already running'' then
        (if isInitialScan
         then (Returned, w \<lparr> timers := timers w @ [(1000, RetryInitialScan i)] \<rparr>)
         else (Returned, w))
      else (Returned, w \<lparr> consoleOut := consoleOut w @ [ErrorRunningScan (JsError message)] \<rparr>))"
| "catchBlock (i, isInitialScan) NonError w =
     (Returned, w \<lparr> consoleOut := consoleOut w @ [ErrorRunningScan NonError] \<rparr>)"

fun finallyBlock :: "thunk \<Rightarrow> world \<Rightarrow> world" where
  "finallyBlock (i, isInitialScan) w =
     (updateInstance i (\<lambda>inst. inst \<lparr> isRunning := False \<rparr>) w) \<lparr> isAxeRunning := False \<rparr>"

text \<open>
  \<^verbatim>\<open>try { ... } catch (error) { ... } finally { ... }\<close> around a stretch of the body: a
  suspension leaves the \<^verbatim>\<open>try\<close> open, a return runs \<^verbatim>\<open>finally\<close>, an exception runs
  \<^verbatim>\<open>catch\<close> and then \<^verbatim>\<open>finally\<close>; an exception of the \<^verbatim>\<open>catch\<close> block itself would
  reject the promise.
\<close>

fun settle :: "thunk \<Rightarrow> completion \<times> world \<Rightarrow> phase \<times> world" where
  "settle t (Suspended ph, w) = (ph, w)"
| "settle t (Returned, w) = (Fulfilled, finallyBlock t w)"
| "settle t (Threw e, w) =
     (case catchBlock t e w of
        (Threw e', w') \<Rightarrow> (Rejected e', finallyBlock t w')
      | (c, w') \<Rightarrow> (Fulfilled, finallyBlock t w'))"

text \<open>
  \<^verbatim>\<open>queuedRun\<close> from its call to the first \<^verbatim>\<open>await\<close>: the check of \<open>isAxeRunning\<close>
  stands before the \<^verbatim>\<open>try\<close>.
\<close>

definition queuedRun :: "thunk \<Rightarrow> world \<Rightarrow> phase \<times> world" where
  "queuedRun t w = (if isAxeRunning w then (Fulfilled, w) else (AwaitImport, w))"

text \<open>
  After \<^verbatim>\<open>await import("axe-core")\<close>. \<open>targetElement\<close> is the element the option
  \<^verbatim>\<open>element\<close> resolves to at this moment, if any.
\<close>

fun afterImport :: "thunk \<Rightarrow> thrown + node option \<Rightarrow> world \<Rightarrow> completion \<times> world" where
  "afterImport (i, isInitialScan) (Inl e) w = (Threw e, w)"
| "afterImport (i, isInitialScan) (Inr targetElement) w =
     (let w1 = (updateInstance i (\<lambda>inst. inst \<lparr> isRunning := True \<rparr>)
                 (w \<lparr> isAxeRunning := True \<rparr>)) \<lparr> axeInstances := insert i (axeInstances w) \<rparr>
      in case targetElement of
           None \<Rightarrow> (Returned, w1 \<lparr> consoleOut := consoleOut w1 @ [WarnTargetMissing] \<rparr>)
         | Some el \<Rightarrow>
             if isInitialScan then (Suspended AwaitReadiness, w1)
             else (Suspended AwaitScan, w1 \<lparr> scans := scans w1 @ [(i, isInitialScan)] \<rparr>))"

text \<open>
  After \<^verbatim>\<open>await waitForContentReadiness(targetElement)\<close>: the gate has logged its
  warning when it resolved \<open>false\<close>; the scanner is called next.
\<close>

definition afterReadiness :: "thunk \<Rightarrow> bool \<Rightarrow> world \<Rightarrow> completion \<times> world" where
  "afterReadiness t ready w =
     (Suspended AwaitScan,
      w \<lparr> consoleOut := consoleOut w @ (if ready then [] else [WarnReadinessTimeout]),
          scans := scans w @ [t] \<rparr>)"

text \<open>
  After \<^verbatim>\<open>await axe.default.run(...)\<close>. A failure is a rejection of the scanner or an
  exception of \<^verbatim>\<open>logViolations\<close> (it can only come from the locator, in the first
  \<^verbatim>\<open>map\<close>, before anything is stored).
\<close>

fun afterScan ::
  "thunk \<Rightarrow> thrown + Result list \<times> (NodeResult \<Rightarrow> node option) \<Rightarrow> world
     \<Rightarrow> completion \<times> world" where
  "afterScan (i, isInitialScan) (Inl e) w = (Threw e, w)"
| "afterScan (i, isInitialScan) (Inr (results, locate)) w =
     (let r = logViolations locate results isInitialScan (previousViolations (instances w i));
          w1 = updateInstance i
                 (\<lambda>inst. inst \<lparr> violations := current r, previousViolations := previous r \<rparr>)
                 (w \<lparr> consoleOut := consoleOut w @ logged r \<rparr>)
      in if isInitialScan then
           (Returned,
            (updateInstance i (\<lambda>inst. inst \<lparr> hasRunInitialScan := True \<rparr>) w1)
              \<lparr> timers := timers w1 @ [(500, ActivateWatchers i)] \<rparr>)
         else (Returned, w1))"

text \<open>
  One turn of the loop of \<^verbatim>\<open>processAxeQueue\<close>, up to its \<^verbatim>\<open>await nextRun()\<close>, or
  its exit. The thunk taken from the queue is started at once.
\<close>

definition loopHead :: "world \<Rightarrow> (thunk \<times> phase) option \<times> world" where
  "loopHead w =
     (case axeQueue w of
        [] \<Rightarrow> (None, w \<lparr> isProcessingQueue := False \<rparr>)
      | nextRun # rest \<Rightarrow>
          (let (ph, w1) = queuedRun nextRun
                            (w \<lparr> axeQueue := rest, started := started w @ [nextRun] \<rparr>);
               w2 = (if isSettled ph then w1 \<lparr> finished := finished w1 @ [nextRun] \<rparr>
                     else w1)
           in (Some (nextRun, ph), w2)))"

definition processAxeQueue :: "world \<Rightarrow> world" where
  "processAxeQueue w =
     (if isProcessingQueue w \<or> length (axeQueue w) = 0 then w
      else
        (case loopHead (w \<lparr> isProcessingQueue := True \<rparr>) of
           (None, w1) \<Rightarrow> w1
         | (Some d, w1) \<Rightarrow> w1 \<lparr> drains := drains w1 @ [d] \<rparr>))"

definition runAxe :: "inst_id \<Rightarrow> bool \<Rightarrow> world \<Rightarrow> world" where
  "runAxe i isInitialScan w =
     (if \<not> enabled (instances w i) then w
      else if isInitialScan \<and> hasRunInitialScan (instances w i) then w
      else processAxeQueue
             (w \<lparr> axeQueue := axeQueue w @ [(i, isInitialScan)],
                 submitted := submitted w @ [(i, isInitialScan)] \<rparr>))"


section \<open>The event loop\<close>

text \<open>
  What the environment does next: a call of the public interface by some instance, a
  timer of the watchers, or the resumption of the \<open>d\<close>-th suspended invocation of
  \<^verbatim>\<open>processAxeQueue\<close> with the outcome of the promise its thunk awaits
  (\<open>Continue\<close> resumes the loop itself after \<^verbatim>\<open>await nextRun()\<close>).
\<close>

datatype event =
    RunAxe inst_id bool
  | Cleanup inst_id
  | HighlightElement inst_id DOMRect
  | RemoveHighlight inst_id
  | WatchersTimer inst_id bool
  | ImportResolved nat "node option"
  | ImportRejected nat thrown
  | ReadinessResolved nat bool
  | ScanResolved nat "Result list" "NodeResult \<Rightarrow> node option"
  | ScanRejected nat thrown
  | Continue nat

text \<open>The thunk of drain \<open>d\<close> has moved to phase \<open>ph\<close>.\<close>

definition suspendAt :: "nat \<Rightarrow> thunk \<Rightarrow> phase \<times> world \<Rightarrow> world" where
  "suspendAt d t pw =
     (case pw of
        (ph, w) \<Rightarrow>
          (let w1 = w \<lparr> drains := (drains w) [d := (t, ph)] \<rparr>
           in if isSettled ph then w1 \<lparr> finished := finished w1 @ [t] \<rparr> else w1))"

text \<open>
  The loop of \<^verbatim>\<open>processAxeQueue\<close> after \<^verbatim>\<open>await nextRun()\<close>: a rejection is logged
  by its \<^verbatim>\<open>catch\<close>, then the next turn begins.
\<close>

definition continueLoop :: "nat \<Rightarrow> world \<Rightarrow> world" where
  "continueLoop d w =
     (case loopHead w of
        (None, w1) \<Rightarrow> w1 \<lparr> drains := take d (drains w1) @ drop (Suc d) (drains w1) \<rparr>
      | (Some nxt, w1) \<Rightarrow> w1 \<lparr> drains := (drains w1) [d := nxt] \<rparr>)"

fun resume :: "nat \<Rightarrow> thunk \<Rightarrow> phase \<Rightarrow> event \<Rightarrow> world \<Rightarrow> world" where
  "resume d t AwaitImport (ImportResolved d' targetElement) w =
     suspendAt d t (settle t (afterImport t (Inr targetElement) w))"
| "resume d t AwaitImport (ImportRejected d' e) w =
     suspendAt d t (settle t (afterImport t (Inl e) w))"
| "resume d t AwaitReadiness (ReadinessResolved d' ready) w =
     suspendAt d t (settle t (afterReadiness t ready w))"
| "resume d t AwaitScan (ScanResolved d' results locate) w =
     suspendAt d t (settle t (afterScan t (Inr (results, locate)) w))"
| "resume d t AwaitScan (ScanRejected d' e) w =
     suspendAt d t (settle t (afterScan t (Inl e) w))"
| "resume d t Fulfilled (Continue d') w = continueLoop d w"
| "resume d t (Rejected e) (Continue d') w =
     continueLoop d (w \<lparr> consoleOut := consoleOut w @ [ErrorQueuedScan e] \<rparr>)"
| "resume d t ph ev w = w"

definition resumeDrain :: "nat \<Rightarrow> event \<Rightarrow> world \<Rightarrow> world" where
  "resumeDrain d ev w =
     (if d < length (drains w)
      then (case drains w ! d of (t, ph) \<Rightarrow> resume d t ph ev w)
      else w)"

fun step :: "event \<Rightarrow> world \<Rightarrow> world" where
  "step (RunAxe i isInitialScan) w = runAxe i isInitialScan w"
| "step (Cleanup i) w = cleanup i w"
| "step (HighlightElement i rect) w = highlightElement i rect w"
| "step (RemoveHighlight i) w = removeHighlight w"
| "step (WatchersTimer i targetPresent) w =
     updateInstance i
       (\<lambda>inst. setupInteractionListeners targetPresent (setupMutationObserver targetPresent inst)) w"
| "step (ImportResolved d targetElement) w = resumeDrain d (ImportResolved d targetElement) w"
| "step (ImportRejected d e) w = resumeDrain d (ImportRejected d e) w"
| "step (ReadinessResolved d ready) w = resumeDrain d (ReadinessResolved d ready) w"
| "step (ScanResolved d results locate) w = resumeDrain d (ScanResolved d results locate) w"
| "step (ScanRejected d e) w = resumeDrain d (ScanRejected d e) w"
| "step (Continue d) w = resumeDrain d (Continue d) w"

fun exec :: "event list \<Rightarrow> world \<Rightarrow> world" where
  "exec [] w = w"
| "exec (ev # evs) w = exec evs (step ev w)"

text \<open>The thunks whose execution has begun and whose promise has not settled\<close>

definition inFlight :: "world \<Rightarrow> thunk list" where
  "inFlight w =
     map fst (filter (\<lambda>(t, ph). \<not> isSettled ph) (drains w))"

text \<open>
  The scheduler's invariant: at most one invocation of \<^verbatim>\<open>processAxeQueue\<close> is
  suspended, and one is exactly when \<open>isProcessingQueue\<close> is set; a thunk waits in the
  queue only while the flag is set; the thunks started so far, followed by the queue, are
  the thunks pushed so far; the thunks settled so far, followed by the one in flight, are
  the thunks started so far.
\<close>

definition serialized :: "world \<Rightarrow> bool" where
  "serialized w \<longleftrightarrow>
     length (drains w) \<le> 1
     \<and> (isProcessingQueue w \<longleftrightarrow> drains w \<noteq> [])
     \<and> (axeQueue w = [] \<or> isProcessingQueue w)
     \<and> started w @ axeQueue w = submitted w
     \<and> finished w @ inFlight w = started w"

text \<open>The body holds the overlay the singleton reference points to, and no other.\<close>

definition singleOverlay :: "world \<Rightarrow> bool" where
  "singleOverlay w \<longleftrightarrow>
     bodyOverlays w = (case highlightedElement w of None \<Rightarrow> [] | Some h \<Rightarrow> [h])"

text \<open>
  The test of the \<^verbatim>\<open>catch\<close> block:
  \<^verbatim>\<open>error instanceof Error && error.message.includes("Axe is already running")\<close>
\<close>

fun alreadyRunning :: "thrown \<Rightarrow> bool" where
  "alreadyRunning (JsError message) = includesStr message ''Axe is already running''"
| "alreadyRunning NonError = False"

fun isRejected :: "phase \<Rightarrow> bool" where
  "isRejected (Rejected e) = True"
| "isRejected ph = False"

text \<open>
  No awaited thunk has rejected, and the \<^verbatim>\<open>catch\<close> of \<^verbatim>\<open>processAxeQueue\<close> has logged
  nothing.
\<close>

fun isQueuedScanError :: "console \<Rightarrow> bool" where
  "isQueuedScanError (ErrorQueuedScan e) = True"
| "isQueuedScanError c = False"

definition noRejection :: "world \<Rightarrow> bool" where
  "noRejection w \<longleftrightarrow>
     \<not> list_ex (\<lambda>(t, ph). isRejected ph) (drains w)
     \<and> \<not> list_ex isQueuedScanError (consoleOut w)"

text \<open>The safety net of \<^verbatim>\<open>cleanup\<close>, as a property of the state\<close>

definition runningImpliesLive :: "world \<Rightarrow> bool" where
  "runningImpliesLive w \<longleftrightarrow> axeInstances w \<noteq> {} \<or> \<not> isAxeRunning w"


text \<open>
  The \<open>isAxeRunning\<close> flag is set only between the import of a thunk and its
  \<^verbatim>\<open>finally\<close> block: while it is set, the one suspended drain awaits the readiness gate
  or the scanner.
\<close>

definition scanInFlight :: "world \<Rightarrow> bool" where
  "scanInFlight w =
     (drains w \<noteq> [] \<and> list_all (\<lambda>(t, ph). ph = AwaitReadiness \<or> ph = AwaitScan) (drains w))"

definition sound :: "world \<Rightarrow> bool" where
  "sound w \<longleftrightarrow> serialized w \<and> (isAxeRunning w \<longrightarrow> scanInFlight w)"

text \<open>
  The event settles the promise a thunk in this phase awaits (for a settled thunk: the
  loop of \<^verbatim>\<open>processAxeQueue\<close> goes on after its \<^verbatim>\<open>await nextRun()\<close>).
\<close>

fun awaitedBy :: "phase \<Rightarrow> event \<Rightarrow> bool" where
  "awaitedBy AwaitImport (ImportResolved d targetElement) = True"
| "awaitedBy AwaitImport (ImportRejected d e) = True"
| "awaitedBy AwaitReadiness (ReadinessResolved d ready) = True"
| "awaitedBy AwaitScan (ScanResolved d results locate) = True"
| "awaitedBy AwaitScan (ScanRejected d e) = True"
| "awaitedBy Fulfilled (Continue d) = True"
| "awaitedBy (Rejected e) (Continue d) = True"
| "awaitedBy ph ev = False"

fun drainOf :: "event \<Rightarrow> nat option" where
  "drainOf (ImportResolved d targetElement) = Some d"
| "drainOf (ImportRejected d e) = Some d"
| "drainOf (ReadinessResolved d ready) = Some d"
| "drainOf (ScanResolved d results locate) = Some d"
| "drainOf (ScanRejected d e) = Some d"
| "drainOf (Continue d) = Some d"
| "drainOf ev = None"

text \<open>
  The event resumes a suspended drain with the outcome of the promise it awaits; a
  list of events does so at every step (no new request, no other call in between).
\<close>

definition resolvesNext :: "event \<Rightarrow> world \<Rightarrow> bool" where
  "resolvesNext ev w =
     (case drainOf ev of
        None \<Rightarrow> False
      | Some d \<Rightarrow> d < length (drains w) \<and> awaitedBy (snd (drains w ! d)) ev)"

fun resolutions :: "event list \<Rightarrow> world \<Rightarrow> bool" where
  "resolutions [] w = True"
| "resolutions (ev # evs) w = (resolvesNext ev w \<and> resolutions evs (step ev w))"

text \<open>
  The work the queue still holds: the awaits left to the thunk in flight (import,
  readiness gate, scanner, the \<^verbatim>\<open>await nextRun()\<close> of the loop), and four for every
  thunk that waits.
\<close>

fun rank :: "phase \<Rightarrow> nat" where
  "rank AwaitImport = 4"
| "rank AwaitReadiness = 3"
| "rank AwaitScan = 2"
| "rank Fulfilled = 1"
| "rank (Rejected e) = 1"

definition pending :: "world \<Rightarrow> nat" where
  "pending w = 4 * length (axeQueue w) + sum_list (map (\<lambda>(t, ph). rank ph) (drains w))"

text \<open>One way for the awaited promise of a phase to settle\<close>

fun resolveOnce :: "phase \<Rightarrow> event" where
  "resolveOnce AwaitImport = ImportResolved 0 None"
| "resolveOnce AwaitReadiness = ReadinessResolved 0 True"
| "resolveOnce AwaitScan = ScanResolved 0 [] (\<lambda>n. None)"
| "resolveOnce Fulfilled = Continue 0"
| "resolveOnce (Rejected e) = Continue 0"


section \<open>Example inputs\<close>

subsection \<open>Scan results\<close>

definition mkResult :: "string \<Rightarrow> impact_value \<Rightarrow> string \<Rightarrow> string list list \<Rightarrow> Result" where
  "mkResult i imp d ts =
     \<lparr> id' = i, impact = imp, description = d, help' = ''help'', helpUrl = ''https://example.org'',
       nodes = map (\<lambda>t. \<lparr> html = ''<div>'', target = t \<rparr>) ts \<rparr>"

definition exX :: Result where
  "exX = mkResult ''image-alt'' (ImpactStr ''critical'') ''Images must have alternate text'' [[''img'']]"

definition exY :: Result where
  "exY = mkResult ''label'' (ImpactStr ''serious'') ''Form elements must have labels'' [[''input'']]"

definition exZ :: Result where
  "exZ = mkResult ''color-contrast'' (ImpactStr ''moderate'') ''Elements must meet contrast'' [[''p'']]"

definition exYu :: Result where
  "exYu = exY \<lparr> impact := ImpactUndefined \<rparr>"

definition exWide :: Result where
  "exWide = mkResult ''region'' (ImpactStr ''moderate'') ''Content must be in landmarks''
     [[''main'', ''section.hero'', ''div.card''], [''main'', ''section.list'', ''ul > li''],
      [''footer'', ''nav.links'', ''a.more'']]"

definition noLocate :: "NodeResult \<Rightarrow> nat option" where
  "noLocate n = None"

lemmas ex_defs = mkResult_def exX_def exY_def exZ_def exYu_def exWide_def noLocate_def


subsection \<open>Options and bounding boxes\<close>

definition optsOn :: "inst_id \<Rightarrow> options" where
  "optsOn i = \<lparr> enabled = True, enableHighlighting = True, watchForChanges = True,
                watchInteractions = True, waitForContent = True \<rparr>"

definition optsNoHighlight :: "inst_id \<Rightarrow> options" where
  "optsNoHighlight i = \<lparr> enabled = True, enableHighlighting = False, watchForChanges = True,
                watchInteractions = True, waitForContent = True \<rparr>"

definition rectA :: DOMRect where
  "rectA = \<lparr> rectTop = 10, rectLeft = 20, rectWidth = 300, rectHeight = 40 \<rparr>"

definition rectB :: DOMRect where
  "rectB = \<lparr> rectTop = 200, rectLeft = 0, rectWidth = 120, rectHeight = 24 \<rparr>"

definition noElement :: "NodeResult \<Rightarrow> node option" where
  "noElement n = None"

subsection \<open>A selector engine for the example documents\<close>












subsection \<open>Documents\<close>

definition emptyDiv :: node where
  "emptyDiv = Element ''div'' [(''id'', ''app'')] [Text ''  Loading  ''] None"

definition readyDiv :: node where
  "readyDiv = Element ''div'' [(''id'', ''app'')]
     [Element ''main'' [] [Element ''button'' [] [Text ''OK''] None] None] None"









text \<open>
  Targets for the readiness gate: an element outside the allow-list with a short text, a
  text padded with no-break spaces (U+00A0, which \<^verbatim>\<open>trim\<close> removes), a text of exactly
  ten characters, a text of twelve characters spread over two nodes, a custom element whose
  shadow root holds an element, and one whose shadow root holds a text node only.
\<close>

definition spanDiv :: node where
  "spanDiv = Element ''div'' [(''id'', ''app'')] [Element ''span'' [] [Text ''Hi''] None] None"

definition nbspDiv :: node where
  "nbspDiv = Element ''div'' [(''id'', ''app'')]
     [Text (''Loading'' @ [CHR 0xA0, CHR 0xA0, CHR 0xA0, CHR 0xA0])] None"

definition tenCharsDiv :: node where
  "tenCharsDiv = Element ''div'' [(''id'', ''app'')] [Text '' 0123456789 ''] None"

definition longTextDiv :: node where
  "longTextDiv = Element ''div'' [(''id'', ''app'')]
     [Element ''p'' [] [Text '' Hello, ''] None, Text ''world ''] None"

definition cardDiv :: node where
  "cardDiv = Element ''div'' [(''id'', ''app'')]
     [Element ''section'' []
        [Element ''x-card'' [] [] (Some [Element ''p'' [] [Text ''Hi''] None])] None] None"

definition emptyShadowDiv :: node where
  "emptyShadowDiv = Element ''div'' [(''id'', ''app'')]
     [Element ''x-card'' [] [] (Some [Text ''A text node and no element''])] None"

lemmas gate_docs =
  emptyDiv_def readyDiv_def spanDiv_def nbspDiv_def tenCharsDiv_def longTextDiv_def
  cardDiv_def emptyShadowDiv_def



section \<open>Projections of the state used in the proofs\<close>

text \<open>The scheduling fields, the overlay fields and the liveness fields of the state\<close>

definition sched :: "world \<Rightarrow> (thunk \<times> phase) list \<times> bool \<times> thunk list \<times> thunk list \<times> thunk list \<times> thunk list" where
  "sched w = (drains w, isProcessingQueue w, axeQueue w, submitted w, started w, finished w)"

definition quiet :: "console list \<Rightarrow> bool" where
  "quiet cs = (\<not> list_ex isQueuedScanError cs)"

definition ov :: "world \<Rightarrow> overlay list \<times> overlay option" where
  "ov w = (bodyOverlays w, highlightedElement w)"

definition live :: "world \<Rightarrow> inst_id set \<times> bool" where
  "live w = (axeInstances w, isAxeRunning w)"


section \<open>Example runs\<close>

definition twoInitialCalls :: "event list" where
  "twoInitialCalls =
     [RunAxe 0 True, RunAxe 0 True,
      ImportResolved 0 (Some readyDiv), ReadinessResolved 0 True,
      ScanResolved 0 [exX] noElement, Continue 0,
      ImportResolved 0 (Some readyDiv), ReadinessResolved 0 True,
      ScanResolved 0 [exX] noElement, Continue 0]"

definition midScan :: world where
  "midScan = exec [RunAxe 0 False, ImportResolved 0 (Some readyDiv)] (initialWorld optsOn)"

definition scanningInitial :: world where
  "scanningInitial =
     exec [RunAxe 0 True, ImportResolved 0 (Some readyDiv), ReadinessResolved 0 True]
       (initialWorld optsOn)"

definition afterInitial :: world where
  "afterInitial = step (ScanResolved 0 [exX] noElement) scanningInitial"

text \<open>
  Two requests of two instances, the second made while the first thunk awaits its import;
  the state when the first thunk has settled and the loop has not gone on yet.
\<close>

definition firstDone :: world where
  "firstDone =
     exec [RunAxe 0 False, RunAxe 1 False, ImportResolved 0 (Some readyDiv),
           ScanResolved 0 [exX] noElement] (initialWorld optsOn)"

text \<open>The state when the second thunk has settled as well\<close>

definition secondDone :: world where
  "secondDone =
     exec [Continue 0, ImportResolved 0 (Some readyDiv), ScanResolved 0 [] noElement] firstDone"

text \<open>
  Instance \<open>i\<close> calls \<^verbatim>\<open>runAxe(true)\<close> twice in a row; the first thunk finds its target,
  passes the readiness gate and completes its scan; the loop goes on and the second thunk
  finds its target and passes the readiness gate.
\<close>

definition initialTwice ::
  "inst_id \<Rightarrow> node \<Rightarrow> bool \<Rightarrow> Result list \<Rightarrow> (NodeResult \<Rightarrow> node option) \<Rightarrow> node \<Rightarrow> bool
     \<Rightarrow> event list" where
  "initialTwice i el1 ready1 results locate el2 ready2 =
     [RunAxe i True, RunAxe i True,
      ImportResolved 0 (Some el1), ReadinessResolved 0 ready1, ScanResolved 0 results locate,
      Continue 0,
      ImportResolved 0 (Some el2), ReadinessResolved 0 ready2]"

definition busyError :: thrown where
  "busyError = JsError ''Axe is already running. Use await axe.run() to wait for it to finish''"

definition otherError :: thrown where
  "otherError = JsError ''No elements found for include in page Context''"


section \<open>Properties of the violation key and the differ\<close>

lemma length_targetSegment: "length (targetSegment n) \<le> 50"
  by (simp add: targetSegment_def slice0_def)

lemma length_join_bound:
  "(\<And>x. x \<in> set xs \<Longrightarrow> length x \<le> b) \<Longrightarrow> length (join sep xs) \<le> (b + length sep) * length xs"
proof (induction sep xs rule: join.induct)
  case (1 sep)
  then show ?case by simp
next
  case (2 sep x)
  then show ?case by simp
next
  case (3 sep x y ys)
  have "length x \<le> b" using 3(2) by simp
  moreover have "length (join sep (y # ys)) \<le> (b + length sep) * length (y # ys)"
    using 3 by simp
  ultimately show ?case by (simp add: algebra_simps)
qed

lemma length_targetComponent: "length (targetComponent v) \<le> 51 * length (nodes v)"
proof -
  have "length (join ''|'' (map targetSegment (nodes v)))
          \<le> (50 + length ''|'') * length (map targetSegment (nodes v))"
    by (rule length_join_bound) (auto simp: length_targetSegment)
  then show ?thesis by (simp add: targetComponent_def)
qed

lemma targetComponent_toLog:
  "targetComponent (asResult (toLogEntry locate v)) = targetComponent v"
  by (simp add: targetComponent_def asResult_def toLogEntry_def targetSegment_def [abs_def] comp_def)

lemma key_roundtrip:
  "impactPresent v \<Longrightarrow> createViolationKey (asResult (toLogEntry locate v)) = createViolationKey v"
  unfolding createViolationKey_def targetComponent_toLog
  by (auto simp: impactPresent_def asResult_def toLogEntry_def split: impact_value.splits)

lemma newViolations_same:
  "\<forall>v \<in> set rs. impactPresent v \<Longrightarrow> newViolations (map (toLogEntry locate) rs) rs = []"
  by (auto simp: newViolations_def filter_empty_conv key_roundtrip image_iff)

lemma resolvedViolations_same:
  "\<forall>v \<in> set rs. impactPresent v \<Longrightarrow> resolvedViolations (map (toLogEntry locate) rs) rs = []"
  by (auto simp: resolvedViolations_def filter_empty_conv key_roundtrip image_iff)

lemma length_join_replicate:
  "length (join sep (replicate (Suc n) x)) = Suc n * length x + n * length sep"
  by (induction n) simp_all

lemma targetComponent_many:
  "length (targetComponent (mkResult i imp d (replicate (Suc n) [''a'']))) = Suc n + n"
proof -
  have "map targetSegment (nodes (mkResult i imp d (replicate (Suc n) [''a''])))
          = replicate (Suc n) ''a''"
    by (simp add: mkResult_def targetSegment_def slice0_def map_replicate del: replicate.simps)
  then show ?thesis
    using length_join_replicate [of "''|''" n "''a''"]
    by (simp add: targetComponent_def del: replicate.simps)
qed

subsection \<open>Claim C9: the violation key\<close>

text \<open>
  Claim C9 says that the target-path component of the key is bounded in length. The
  source truncates the joined target path of each node to 50 characters and joins the
  segments of all nodes with \<^verbatim>\<open>|\<close>, so the component grows with the number of
  nodes: for the three-node violation \<open>exWide\<close> it is longer than the 50 characters
  of one truncated path, and no length bounds the component of every violation.
\<close>

theorem key_component_unbounded_counterexample:
  "\<not> length (targetComponent exWide) \<le> 50
   \<and> \<not> (\<exists>bound. \<forall>v. length (targetComponent v) \<le> bound)"
proof -
  have a: "\<not> length (targetComponent exWide) \<le> 50"
    by (simp add: ex_defs targetComponent_def targetSegment_def slice0_def)
  have b: "\<not> (\<exists>bound. \<forall>v. length (targetComponent v) \<le> bound)"
  proof
    assume "\<exists>bound. \<forall>v. length (targetComponent v) \<le> bound"
    then obtain bound where "\<forall>v. length (targetComponent v) \<le> bound" ..
    then have "length (targetComponent (mkResult [] ImpactNull [] (replicate (Suc bound) [''a''])))
                \<le> bound" by blast
    then show False by (simp only: targetComponent_many)
  qed
  from a b show ?thesis ..
qed

text \<open>
  Claim C9, amended. The key is a function of the rule id, the impact and the truncated
  target segments of the nodes alone: two results that agree on these have the same key,
  whatever their markup, description or resolved elements are. Every node contributes a
  segment of at most 50 characters, so the target-path component of a violation with
  \<open>n\<close> nodes has at most \<open>51 * n\<close> characters. The differ treats records with equal
  keys as the same violation: a current result whose key equals that of a stored entry is
  not reported as new, and the stored entry is not reported as resolved.
\<close>

theorem violation_key_properties:
  "(id' a = id' b \<and> impact a = impact b
      \<and> map targetSegment (nodes a) = map targetSegment (nodes b)
      \<longrightarrow> createViolationKey a = createViolationKey b)
   \<and> (\<forall>n \<in> set (nodes a). length (targetSegment n) \<le> 50)
   \<and> length (targetComponent a) \<le> 51 * length (nodes a)
   \<and> createViolationKey (asResult (p \<lparr> nodes := map (\<lambda>n. n \<lparr> element := e n \<rparr>) (nodes p) \<rparr>))
       = createViolationKey (asResult p)
   \<and> (p \<in> set prev \<and> createViolationKey (asResult p) = createViolationKey a
      \<longrightarrow> a \<notin> set (newViolations prev cur))
   \<and> (a \<in> set cur \<and> createViolationKey (asResult p) = createViolationKey a
      \<longrightarrow> p \<notin> set (resolvedViolations prev cur))"
proof -
  have det: "id' a = id' b \<and> impact a = impact b
      \<and> map targetSegment (nodes a) = map targetSegment (nodes b)
      \<longrightarrow> createViolationKey a = createViolationKey b"
    by (simp add: createViolationKey_def targetComponent_def)
  have seg: "\<forall>n \<in> set (nodes a). length (targetSegment n) \<le> 50"
    by (simp add: length_targetSegment)
  have elem: "createViolationKey (asResult (p \<lparr> nodes := map (\<lambda>n. n \<lparr> element := e n \<rparr>) (nodes p) \<rparr>))
       = createViolationKey (asResult p)"
    by (simp add: createViolationKey_def targetComponent_def asResult_def comp_def)
  have new: "p \<in> set prev \<and> createViolationKey (asResult p) = createViolationKey a
      \<longrightarrow> a \<notin> set (newViolations prev cur)"
    by (force simp: newViolations_def)
  have res: "a \<in> set cur \<and> createViolationKey (asResult p) = createViolationKey a
      \<longrightarrow> p \<notin> set (resolvedViolations prev cur)"
    by (force simp: resolvedViolations_def)
  from det seg length_targetComponent elem new res show ?thesis by blast
qed

theorem violation_key_properties_witness:
  "createViolationKey exX = createViolationKey (exX \<lparr> description := ''other'', helpUrl := [] \<rparr>)
   \<and> length (targetComponent exX) \<le> 51
   \<and> exX \<notin> set (newViolations [toLogEntry noLocate exX] [exX, exZ])
   \<and> toLogEntry noLocate exX \<notin> set (resolvedViolations [toLogEntry noLocate exX] [exX, exZ])"
proof -
  have k: "createViolationKey (asResult (toLogEntry noLocate exX)) = createViolationKey exX"
    by (simp add: ex_defs createViolationKey_def targetComponent_def targetSegment_def
        slice0_def asResult_def toLogEntry_def)
  have n: "length (nodes exX) = 1" by (simp add: ex_defs)
  show ?thesis
    using violation_key_properties [where a = exX
          and b = "exX \<lparr> description := ''other'', helpUrl := [] \<rparr>"
          and p = "toLogEntry noLocate exX" and prev = "[toLogEntry noLocate exX]"
          and cur = "[exX, exZ]" and e = "\<lambda>n. None"]
      k n
    by simp
qed

subsection \<open>Claim C3: the difference of two consecutive scans\<close>

text \<open>
  Claim C3: when scan A yields \<open>{X, Y}\<close> and scan B yields \<open>{Y, Z}\<close>, three violations
  with distinct keys, the differ should report \<open>added = {Z}\<close> and \<open>removed = {X}\<close>.
  The stored entries carry the normalised impact (\<^verbatim>\<open>impact || "unknown"\<close>), the key of a
  scanner result is built from the raw impact. For a result \<open>Y\<close> without an impact the
  stored key reads \<^verbatim>\<open>label:unknown:input\<close> and the current one \<^verbatim>\<open>label:undefined:input\<close>,
  so \<open>Y\<close> is reported both as new and as resolved.
\<close>

theorem diff_missing_impact:
  "distinct (map createViolationKey [exX, exYu, exZ])
   \<and> (let a = logViolations noLocate [exX, exYu] False [];
          b = logViolations noLocate [exYu, exZ] False (previous a)
      in added b = [exYu, exZ]
         \<and> removed b = [toLogEntry noLocate exX, toLogEntry noLocate exYu])"
  by (simp add: ex_defs logViolations_def newViolations_def resolvedViolations_def
      createViolationKey_def targetComponent_def targetSegment_def slice0_def asResult_def
      toLogEntry_def Let_def)

text \<open>
  When \<open>X\<close> and \<open>Y\<close> carry an impact, the differ reports what the claim says.
\<close>

lemma diff_two_scans:
  assumes "distinct (map createViolationKey [x, y, z])" "impactPresent x" "impactPresent y"
  shows "added (logViolations l2 [y, z] False (previous (logViolations l1 [x, y] b prev))) = [z]
         \<and> removed (logViolations l2 [y, z] False (previous (logViolations l1 [x, y] b prev)))
             = [toLogEntry l1 x]"
proof -
  have p: "previous (logViolations l1 [x, y] b prev) = [toLogEntry l1 x, toLogEntry l1 y]"
    by (simp add: logViolations_def Let_def)
  show ?thesis
    using assms key_roundtrip [OF assms(2), of l1] key_roundtrip [OF assms(3), of l1]
    unfolding p
    by (auto simp: logViolations_def newViolations_def resolvedViolations_def Let_def)
qed

subsection \<open>Claim C4: reconciling the same input twice\<close>

text \<open>
  Claim C4 says that a second call with the same input yields empty \<open>added\<close> and
  \<open>removed\<close> for every input. A call flagged as initial scan takes the first branch of
  \<^verbatim>\<open>logViolations\<close> and reports every violation again.
\<close>

theorem reconcile_twice_counterexample:
  "\<not> (let a = logViolations noLocate [exX] True [];
           b = logViolations noLocate [exX] True (previous a)
       in added b = [] \<and> removed b = [])"
  by (simp add: ex_defs logViolations_def Let_def)

text \<open>
  Claim C4, amended. After every call the normalised current set is the stored previous
  set. When every violation has an impact, a second call with the same results that is
  not flagged as initial scan reports nothing as added and nothing as removed.
\<close>

theorem reconcile_twice:
  "previous (logViolations locate results isInitialScan prev) = map (toLogEntry locate) results
   \<and> current (logViolations locate results isInitialScan prev) = map (toLogEntry locate) results
   \<and> ((\<forall>v \<in> set results. impactPresent v) \<longrightarrow>
       (let a = logViolations locate results isInitialScan prev;
            b = logViolations locate' results False (previous a)
        in added b = [] \<and> removed b = []))"
proof -
  have p: "previous (logViolations locate results isInitialScan prev) = map (toLogEntry locate) results"
    by (simp add: logViolations_def Let_def)
  have c: "current (logViolations locate results isInitialScan prev) = map (toLogEntry locate) results"
    by (simp add: logViolations_def Let_def)
  have d: "added (logViolations locate' results False (map (toLogEntry locate) results)) = []
         \<and> removed (logViolations locate' results False (map (toLogEntry locate) results)) = []"
    if "\<forall>v \<in> set results. impactPresent v"
    using newViolations_same [OF that, of locate] resolvedViolations_same [OF that, of locate]
    by (simp add: logViolations_def Let_def)
  from p c d show ?thesis by (simp add: Let_def)
qed

theorem reconcile_twice_witness:
  "impactPresent exX \<and> impactPresent exY
   \<and> previous (logViolations noLocate [exX, exY] True []) = map (toLogEntry noLocate) [exX, exY]
   \<and> added (logViolations noLocate [exX, exY] False
             (previous (logViolations noLocate [exX, exY] True []))) = []
   \<and> removed (logViolations noLocate [exX, exY] False
             (previous (logViolations noLocate [exX, exY] True []))) = []"
proof -
  have h: "\<forall>v \<in> set [exX, exY]. impactPresent v"
    by (simp add: ex_defs impactPresent_def)
  have h': "impactPresent exX \<and> impactPresent exY"
    using h by simp
  show ?thesis
    using h h' reconcile_twice [of noLocate "[exX, exY]" True "[]" noLocate]
    unfolding Let_def by blast
qed

section \<open>Properties of the readiness gate\<close>

lemma checkContent_prefix:
  "\<forall>(t', n') \<in> set before. \<not> hasContentReady True t' \<and> n' - s < maxWait \<Longrightarrow>
   checkContent True maxWait s (before @ rest) =
     (let g = checkContent True maxWait s rest
      in g \<lparr> timeouts := replicate (length before) 100 @ timeouts g \<rparr>)"
  by (induction before) (auto simp: Let_def)

lemma hasContentReady_iff:
  "hasContentReady True t \<longleftrightarrow>
     (\<exists>e \<in> set (descendants (childNodes t)). isMeaningful e)
     \<or> 10 < length (trim (textContent t))
     \<or> (\<exists>e \<in> set (descendants (childNodes t)). hasShadowContent e)"
  by (auto simp: hasContentReady_def filter_empty_conv list_ex_iff)

subsection \<open>Claim C7: the readiness gate\<close>

text \<open>
  Claim C7. With \<^verbatim>\<open>waitForContent\<close> off the gate resolves \<open>true\<close> at once, without a
  poll or a timer. Otherwise a target is ready exactly when one of its descendants
  matches the allow-list, or its trimmed text content has more than 10 characters, or one
  of its descendants has a shadow root with an element child. As long as the polls find
  the target not ready and less than \<open>maxWaitTime\<close> (5000 when the argument is left
  out) has elapsed, each poll sets one timer of 100 ms; the first poll that finds the
  target ready resolves \<open>true\<close>, and the first poll that finds it not ready with
  \<open>maxWaitTime\<close> or more elapsed logs the warning and resolves \<open>false\<close>.
\<close>

theorem readiness_gate:
  "waitForContentReadiness False m s polls
     = \<lparr> resolved = Some True, warnings = [], timeouts = [] \<rparr>
   \<and> waitForContentReadiness True None s polls = waitForContentReadiness True (Some 5000) s polls
   \<and> (hasContentReady True t \<longleftrightarrow>
        (\<exists>e \<in> set (descendants (childNodes t)). isMeaningful e)
        \<or> 10 < length (trim (textContent t))
        \<or> (\<exists>e \<in> set (descendants (childNodes t)). hasShadowContent e))
   \<and> ((\<forall>(t', n') \<in> set before. \<not> hasContentReady True t' \<and> n' - s < maxWait)
        \<and> hasContentReady True t
      \<longrightarrow> waitForContentReadiness True (Some maxWait) s (before @ (t, now) # after)
          = \<lparr> resolved = Some True, warnings = [],
              timeouts = replicate (length before) 100 \<rparr>)
   \<and> ((\<forall>(t', n') \<in> set before. \<not> hasContentReady True t' \<and> n' - s < maxWait)
        \<and> \<not> hasContentReady True t \<and> now - s \<ge> maxWait
      \<longrightarrow> waitForContentReadiness True (Some maxWait) s (before @ (t, now) # after)
          = \<lparr> resolved = Some False, warnings = [WarnReadinessTimeout],
              timeouts = replicate (length before) 100 \<rparr>)"
proof -
  have off: "waitForContentReadiness False m s polls
     = \<lparr> resolved = Some True, warnings = [], timeouts = [] \<rparr>"
    by (simp add: waitForContentReadiness_def)
  have dflt: "waitForContentReadiness True None s polls
     = waitForContentReadiness True (Some 5000) s polls"
    by (simp add: waitForContentReadiness_def)
  have ready: "waitForContentReadiness True (Some maxWait) s (before @ (t, now) # after)
          = \<lparr> resolved = Some True, warnings = [],
              timeouts = replicate (length before) 100 \<rparr>"
    if "\<forall>(t', n') \<in> set before. \<not> hasContentReady True t' \<and> n' - s < maxWait"
      and "hasContentReady True t"
    using checkContent_prefix [OF that(1), of "(t, now) # after"] that(2)
    by (simp add: waitForContentReadiness_def)
  have late: "waitForContentReadiness True (Some maxWait) s (before @ (t, now) # after)
          = \<lparr> resolved = Some False, warnings = [WarnReadinessTimeout],
              timeouts = replicate (length before) 100 \<rparr>"
    if "\<forall>(t', n') \<in> set before. \<not> hasContentReady True t' \<and> n' - s < maxWait"
      and "\<not> hasContentReady True t" and "now - s \<ge> maxWait"
    using checkContent_prefix [OF that(1), of "(t, now) # after"] that(2,3)
    by (simp add: waitForContentReadiness_def)
  from off dflt hasContentReady_iff [of t] ready late show ?thesis by blast
qed

lemmas gate_defs =
  hasContentReady_def descendants_def isMeaningful_def meaningfulTags_def
  meaningfulAttributes_def hasShadowContent_def trim_def isSpace_def

lemma gate_examples:
  "\<not> hasContentReady True emptyDiv"
  "\<not> hasContentReady True spanDiv"
  "\<not> hasContentReady True nbspDiv"
  "\<not> hasContentReady True tenCharsDiv"
  "\<not> hasContentReady True emptyShadowDiv"
  "hasContentReady True readyDiv"
  "hasContentReady True longTextDiv"
  "hasContentReady True cardDiv"
  by (simp_all add: gate_defs gate_docs)

lemma gate_reasons:
  "trim (textContent nbspDiv) = ''Loading''"
  "trim (textContent tenCharsDiv) = ''0123456789''"
  "trim (textContent longTextDiv) = ''Hello, world''"
  "trim (textContent cardDiv) = []"
  "filter isMeaningful (descendants (childNodes spanDiv)) = []"
  "filter isMeaningful (descendants (childNodes longTextDiv)) = []"
  "filter isMeaningful (descendants (childNodes cardDiv)) = []"
  "filter isMeaningful (descendants (childNodes readyDiv)) = [Element ''button'' [] [Text ''OK''] None]"
  "filter hasShadowContent (descendants (childNodes cardDiv))
     = [Element ''x-card'' [] [] (Some [Element ''p'' [] [Text ''Hi''] None])]"
  "filter hasShadowContent (descendants (childNodes emptyShadowDiv)) = []"
  by (simp_all add: gate_defs gate_docs)

theorem readiness_gate_witness:
  "\<not> hasContentReady True emptyDiv \<and> hasContentReady True readyDiv
   \<and> \<not> hasContentReady True spanDiv
   \<and> \<not> hasContentReady True nbspDiv \<and> trim (textContent nbspDiv) = ''Loading''
   \<and> \<not> hasContentReady True tenCharsDiv \<and> trim (textContent tenCharsDiv) = ''0123456789''
   \<and> hasContentReady True longTextDiv \<and> trim (textContent longTextDiv) = ''Hello, world''
   \<and> filter isMeaningful (descendants (childNodes longTextDiv)) = []
   \<and> hasContentReady True cardDiv \<and> trim (textContent cardDiv) = []
   \<and> filter isMeaningful (descendants (childNodes cardDiv)) = []
   \<and> \<not> hasContentReady True emptyShadowDiv
   \<and> waitForContentReadiness True (Some 250) 1000
        [(emptyDiv, 1000), (emptyDiv, 1101), (readyDiv, 1203), (readyDiv, 1304)]
       = \<lparr> resolved = Some True, warnings = [], timeouts = [100, 100] \<rparr>
   \<and> waitForContentReadiness True (Some 250) 1000
        [(emptyDiv, 1000), (emptyDiv, 1101), (emptyDiv, 1203), (emptyDiv, 1304)]
       = \<lparr> resolved = Some False, warnings = [WarnReadinessTimeout], timeouts = [100, 100, 100] \<rparr>
   \<and> waitForContentReadiness True None 0
        [(spanDiv, 0), (nbspDiv, 100), (emptyShadowDiv, 200), (cardDiv, 300)]
       = \<lparr> resolved = Some True, warnings = [], timeouts = [100, 100, 100] \<rparr>
   \<and> waitForContentReadiness True None 0
        [(spanDiv, 0), (nbspDiv, 4999), (tenCharsDiv, 5000), (cardDiv, 5100)]
       = \<lparr> resolved = Some False, warnings = [WarnReadinessTimeout], timeouts = [100, 100] \<rparr>
   \<and> waitForContentReadiness False None 1000 [] 
       = \<lparr> resolved = Some True, warnings = [], timeouts = [] \<rparr>"
proof -
  have b2: "\<forall>(t', n') \<in> set [(emptyDiv, 1000), (emptyDiv, 1101)].
              \<not> hasContentReady True t' \<and> n' - 1000 < (250::int)"
    by (simp add: gate_examples)
  have b3: "\<forall>(t', n') \<in> set [(emptyDiv, 1000), (emptyDiv, 1101), (emptyDiv, 1203)].
              \<not> hasContentReady True t' \<and> n' - 1000 < (250::int)"
    by (simp add: gate_examples)
  have c3: "\<forall>(t', n') \<in> set [(spanDiv, 0), (nbspDiv, 100), (emptyShadowDiv, 200)].
              \<not> hasContentReady True t' \<and> n' - 0 < (5000::int)"
    by (simp add: gate_examples)
  have c2: "\<forall>(t', n') \<in> set [(spanDiv, 0), (nbspDiv, 4999)].
              \<not> hasContentReady True t' \<and> n' - 0 < (5000::int)"
    by (simp add: gate_examples)
  show ?thesis
    using readiness_gate [where before = "[(emptyDiv, 1000), (emptyDiv, 1101)]" and t = readyDiv
        and now = 1203 and after = "[(readyDiv, 1304)]" and s = 1000 and maxWait = 250
        and m = None and polls = "[]"]
      readiness_gate [where before = "[(emptyDiv, 1000), (emptyDiv, 1101), (emptyDiv, 1203)]"
        and t = emptyDiv and now = 1304 and after = "[]" and s = 1000 and maxWait = 250
        and m = None and polls = "[]"]
      readiness_gate [where before = "[(spanDiv, 0), (nbspDiv, 100), (emptyShadowDiv, 200)]"
        and t = cardDiv and now = 300 and after = "[]" and s = 0 and maxWait = 5000
        and m = None
        and polls = "[(spanDiv, 0), (nbspDiv, 100), (emptyShadowDiv, 200), (cardDiv, 300)]"]
      readiness_gate [where before = "[(spanDiv, 0), (nbspDiv, 4999)]"
        and t = tenCharsDiv and now = 5000 and after = "[(cardDiv, 5100)]" and s = 0
        and maxWait = 5000 and m = None
        and polls = "[(spanDiv, 0), (nbspDiv, 4999), (tenCharsDiv, 5000), (cardDiv, 5100)]"]
      b2 b3 c2 c3 gate_examples gate_reasons
    by (simp add: numeral_eq_Suc)
qed

section \<open>Properties of the shadow-boundary locator\<close>

lemma orElse_simps [simp]:
  "orElse (Inr None) b = b"
  "orElse (Inl e) b = Inl e"
  "orElse (Inr (Some x)) b = Inr (Some x)"
  "orElse a (Inr None) = a"
  by (auto simp: orElse_def split: sum.splits option.splits)









subsection \<open>Claim C5: the order of the structural match\<close>




section \<open>Properties of the scan scheduler\<close>

lemma sched_finallyBlock [simp]: "sched (finallyBlock t w) = sched w"
  by (cases t) (simp add: sched_def updateInstance_def)

lemma sched_catchBlock [simp]: "sched (snd (catchBlock t e w)) = sched w"
  by (cases t; cases e) (simp_all add: sched_def)

lemma sched_settle [simp]: "sched (snd (settle t cw)) = sched (snd cw)"
proof (cases cw)
  case (Pair c w)
  show ?thesis
  proof (cases c)
    case (Threw e)
    show ?thesis using Pair Threw sched_catchBlock [of t e w]
      by (cases "catchBlock t e w"; cases "fst (catchBlock t e w)") auto
  qed (simp_all add: Pair)
qed

lemma sched_afterImport [simp]: "sched (snd (afterImport t x w)) = sched w"
  by (cases t; cases x) (auto simp: sched_def updateInstance_def Let_def split: option.splits)

lemma sched_afterReadiness [simp]: "sched (snd (afterReadiness t b w)) = sched w"
  by (simp add: afterReadiness_def sched_def)

lemma sched_updateInstance [simp]: "sched (updateInstance i f w) = sched w"
  by (simp add: sched_def updateInstance_def)

lemma sched_afterScan [simp]: "sched (snd (afterScan t x w)) = sched w"
proof (cases t)
  case (Pair i b)
  show ?thesis
  proof (cases x)
    case (Inl e)
    then show ?thesis using Pair by simp
  next
    case (Inr rl)
    obtain results locate where rl: "rl = (results, locate)" by (cases rl)
    show ?thesis
      unfolding Pair Inr rl
      by (cases b) (simp_all add: Let_def sched_def updateInstance_def)
  qed
qed

lemma serialized_sched:
  "serialized w \<longleftrightarrow>
     (case sched w of (ds, flag, queue, sub, sta, fin) \<Rightarrow>
        length ds \<le> 1 \<and> (flag \<longleftrightarrow> ds \<noteq> []) \<and> (queue = [] \<or> flag) \<and> sta @ queue = sub
        \<and> fin @ map fst (filter (\<lambda>(t, ph). \<not> isSettled ph) ds) = sta)"
  by (simp add: serialized_def sched_def inFlight_def)

lemma sched_suspendAt:
  "sched (suspendAt d t (ph, w)) =
     (case sched w of (ds, flag, queue, sub, sta, fin) \<Rightarrow>
        (ds [d := (t, ph)], flag, queue, sub, sta, if isSettled ph then fin @ [t] else fin))"
  by (simp add: suspendAt_def sched_def Let_def)

lemma serialized_suspendAt:
  assumes "serialized w0" "drains w0 = [(t, ph0)]" "\<not> isSettled ph0" "sched w = sched w0"
  shows "serialized (suspendAt 0 t (ph, w))"
proof -
  have eq: "drains w = [(t, ph0)]" "isProcessingQueue w = isProcessingQueue w0"
    "axeQueue w = axeQueue w0" "submitted w = submitted w0" "started w = started w0"
    "finished w = finished w0"
    using assms(2,4) by (simp_all add: sched_def)
  show ?thesis
    using assms(1,2,3) eq
    by (simp add: serialized_def inFlight_def suspendAt_def Let_def)
qed

lemma serialized_loopHead:
  assumes "length (drains w) \<le> 1" "started w @ axeQueue w = submitted w"
    "finished w = started w"
  shows "case loopHead w of
           (None, w1) \<Rightarrow> serialized (w1 \<lparr> drains := [] \<rparr>)
         | (Some d, w1) \<Rightarrow> serialized (w1 \<lparr> drains := [d], isProcessingQueue := True \<rparr>)"
  using assms
  by (auto simp: loopHead_def queuedRun_def serialized_def inFlight_def Let_def
      split: list.splits)

lemma serialized_initial: "serialized (initialWorld opts)"
  by (simp add: serialized_def initialWorld_def inFlight_def)

lemma serialized_suspendAt':
  assumes "serialized w0" "drains w0 = [(t, ph0)]" "\<not> isSettled ph0" "sched (snd pw) = sched w0"
  shows "serialized (suspendAt 0 t pw)"
  using serialized_suspendAt [OF assms(1,2,3), of "snd pw" "fst pw"] assms(4) by simp

lemma serialized_runAxe: "serialized w \<Longrightarrow> serialized (runAxe i b w)"
  by (auto simp: runAxe_def processAxeQueue_def loopHead_def queuedRun_def serialized_def
      inFlight_def Let_def split: list.splits)

lemma serialized_continueLoop:
  assumes "serialized w0" "drains w0 = [(t, ph)]" "isSettled ph" "sched w = sched w0"
  shows "serialized (continueLoop 0 w)"
proof -
  have eq: "drains w = [(t, ph)]" "isProcessingQueue w = isProcessingQueue w0"
    "axeQueue w = axeQueue w0" "submitted w = submitted w0" "started w = started w0"
    "finished w = finished w0"
    using assms(2,4) by (simp_all add: sched_def)
  show ?thesis
    using assms(1,2,3) eq
    by (auto simp: continueLoop_def loopHead_def queuedRun_def serialized_def inFlight_def
        Let_def split: list.splits)
qed

lemma serialized_resume:
  assumes "serialized w" "drains w = [(t, ph)]"
  shows "serialized (resume 0 t ph ev w)"
proof (cases "isSettled ph")
  case True
  have s: "sched (w \<lparr> consoleOut := c \<rparr>) = sched w" for c
    by (simp add: sched_def)
  show ?thesis
    using True assms serialized_continueLoop [OF assms True refl]
      serialized_continueLoop [OF assms True s]
    by (cases ph; cases ev) simp_all
next
  case False
  show ?thesis
    using False assms
    by (cases ph; cases ev) (simp_all add: serialized_suspendAt' [OF assms False])
qed

lemma serialized_other:
  "serialized (cleanup i w) = serialized w"
  "serialized (highlightElement i r w) = serialized w"
  "serialized (removeHighlight w) = serialized w"
  "serialized (updateInstance i f w) = serialized w"
  by (auto simp: serialized_def inFlight_def cleanup_def highlightElement_def removeHighlight_def
      updateInstance_def Let_def split: option.splits)

lemma serialized_resumeDrain:
  assumes "serialized w"
  shows "serialized (resumeDrain d ev w)"
proof (cases "d < length (drains w)")
  case True
  then have d: "d = 0" and "length (drains w) = 1"
    using assms by (auto simp: serialized_def)
  then obtain t ph where "drains w = [(t, ph)]"
    by (cases "drains w") auto
  then show ?thesis
    using serialized_resume [OF assms, of t ph ev] d by (simp add: resumeDrain_def)
next
  case False
  then show ?thesis using assms by (simp add: resumeDrain_def)
qed

lemma serialized_step: "serialized w \<Longrightarrow> serialized (step ev w)"
  by (cases ev) (simp_all add: serialized_runAxe serialized_other serialized_resumeDrain)

lemma serialized_exec: "serialized w \<Longrightarrow> serialized (exec evs w)"
  by (induction evs arbitrary: w) (simp_all add: serialized_step)

subsection \<open>The example runs\<close>

lemmas machine_defs =
  initialWorld_def useAccessibility_def updateInstance_def runAxe_def processAxeQueue_def
  loopHead_def queuedRun_def resumeDrain_def suspendAt_def continueLoop_def afterReadiness_def
  cleanup_def removeHighlight_def highlightElement_def

lemma midScan_fields:
  "isAxeRunning midScan" "axeInstances midScan = {0}"
  "drains midScan = [((0, False), AwaitScan)]"
  by (simp_all add: midScan_def machine_defs optsOn_def Let_def)

lemma scanningInitial_fields:
  "drains scanningInitial = [((0, True), AwaitScan)]"
  "enabled (instances scanningInitial 0)"
  "\<not> hasRunInitialScan (instances scanningInitial 0)"
  "submitted scanningInitial = [(0, True)]"
  by (simp_all add: scanningInitial_def machine_defs optsOn_def Let_def)

lemma error_kinds: "alreadyRunning busyError" "\<not> alreadyRunning otherError"
  by (simp_all add: busyError_def otherError_def)

subsection \<open>No thunk rejects\<close>

lemma fst_catchBlock [simp]: "fst (catchBlock t e w) = Returned"
  by (cases t; cases e) simp_all

lemma settle_Threw: "settle t (Threw e, w) = (Fulfilled, finallyBlock t (snd (catchBlock t e w)))"
  using fst_catchBlock [of t e w]
  by (cases "catchBlock t e w") (auto split: completion.splits)

declare settle.simps(3) [simp del]

declare settle_Threw [simp]

lemma afterImport_phase:
  "fst (settle t (afterImport t x w)) \<in> {AwaitReadiness, AwaitScan, Fulfilled}"
  by (cases t; cases x) (auto simp: settle_Threw Let_def split: option.splits)

lemma afterReadiness_phase: "fst (settle t (afterReadiness t b w)) = AwaitScan"
  by (simp add: afterReadiness_def)

lemma afterScan_phase: "fst (settle t (afterScan t x w)) = Fulfilled"
proof (cases t)
  case (Pair i b)
  show ?thesis
  proof (cases x)
    case (Inl e)
    then show ?thesis using Pair by (simp add: settle_Threw)
  next
    case (Inr rl)
    obtain results locate where rl: "rl = (results, locate)" by (cases rl)
    show ?thesis unfolding Pair Inr rl by (cases b) (simp_all add: Let_def)
  qed
qed

lemma quiet_append [simp]: "quiet (xs @ ys) = (quiet xs \<and> quiet ys)"
  by (auto simp: quiet_def list_ex_iff)

lemma quiet_logged [simp]: "quiet (logged (logViolations locate results b prev))"
  by (auto simp: quiet_def logViolations_def Let_def list_ex_iff)

lemma quiet_simps [simp]: "quiet []" "quiet (c # cs) = (\<not> isQueuedScanError c \<and> quiet cs)"
  by (auto simp: quiet_def)

lemma console_finallyBlock [simp]: "consoleOut (finallyBlock t w) = consoleOut w"
  by (cases t) (simp add: updateInstance_def)

lemma quiet_catchBlock: "quiet (consoleOut w) \<Longrightarrow> quiet (consoleOut (snd (catchBlock t e w)))"
  by (cases t; cases e) auto

lemma quiet_afterImport:
  "quiet (consoleOut w) \<Longrightarrow> quiet (consoleOut (snd (settle t (afterImport t x w))))"
  by (cases t; cases x)
    (auto simp: settle_Threw quiet_catchBlock Let_def updateInstance_def split: option.splits)

lemma quiet_afterReadiness:
  "quiet (consoleOut w) \<Longrightarrow> quiet (consoleOut (snd (settle t (afterReadiness t b w))))"
  by (simp add: afterReadiness_def)

lemma quiet_afterScan:
  "quiet (consoleOut w) \<Longrightarrow> quiet (consoleOut (snd (settle t (afterScan t x w))))"
proof (cases t)
  case (Pair i b)
  assume q: "quiet (consoleOut w)"
  show ?thesis
  proof (cases x)
    case (Inl e)
    then show ?thesis using Pair q quiet_catchBlock [of w "(i, b)" e]
      by (simp add: updateInstance_def)
  next
    case (Inr rl)
    obtain results locate where rl: "rl = (results, locate)" by (cases rl)
    show ?thesis unfolding Pair Inr rl using q
      by (cases b) (simp_all add: Let_def updateInstance_def)
  qed
qed

lemma noRejection_alt:
  "noRejection w \<longleftrightarrow> (\<forall>(t, ph) \<in> set (drains w). \<not> isRejected ph) \<and> quiet (consoleOut w)"
  by (auto simp: noRejection_def quiet_def list_ex_iff)

lemma noRejection_suspendAt:
  assumes "noRejection w0" "drains w = drains w0" "quiet (consoleOut w)" "\<not> isRejected ph"
  shows "noRejection (suspendAt d t (ph, w))"
  using assms
  by (auto simp: noRejection_alt suspendAt_def Let_def dest!: set_update_subset_insert [THEN subsetD])

lemma drains_settle: "drains (snd (settle t cw)) = drains (snd cw)"
  using sched_settle [of t cw] by (simp add: sched_def)

lemma drains_after:
  "drains (snd (settle t (afterImport t x w))) = drains w"
  "drains (snd (settle t (afterReadiness t b w))) = drains w"
  "drains (snd (settle t (afterScan t y w))) = drains w"
  using sched_afterImport [of t x w] sched_afterReadiness [of t b w] sched_afterScan [of t y w]
  by (simp_all add: drains_settle sched_def)

lemma noRejection_suspendAt':
  assumes "noRejection w0" "drains (snd pw) = drains w0" "quiet (consoleOut (snd pw))"
    "\<not> isRejected (fst pw)"
  shows "noRejection (suspendAt d t pw)"
  using noRejection_suspendAt [OF assms(1,2,3,4), of d t] by simp

lemma noRejection_loop:
  assumes "noRejection w"
  shows "noRejection (continueLoop d w)"
    and "noRejection (processAxeQueue w)"
  using assms
  by (auto simp: noRejection_alt continueLoop_def processAxeQueue_def loopHead_def
      queuedRun_def Let_def
      split: list.splits dest!: set_update_subset_insert [THEN subsetD] in_set_takeD in_set_dropD)

lemma noRejection_resume:
  assumes "noRejection w" "d < length (drains w)" "drains w ! d = (t, ph)"
  shows "noRejection (resume d t ph ev w)"
proof -
  have nr: "\<not> isRejected ph"
    using assms nth_mem [OF assms(2)] by (auto simp: noRejection_alt)
  have q: "quiet (consoleOut w)" using assms(1) by (simp add: noRejection_alt)
  have i: "\<not> isRejected (fst (settle t (afterImport t x w)))" for x
    using afterImport_phase [of t x w] by auto
  show ?thesis
    using nr assms(1)
    by (cases ph; cases ev)
      (simp_all add: noRejection_loop noRejection_suspendAt' drains_after q i
        quiet_afterImport quiet_afterReadiness quiet_afterScan afterReadiness_phase
        afterScan_phase)
qed

lemma noRejection_other:
  "noRejection (cleanup i w) = noRejection w"
  "noRejection (highlightElement i r w) = noRejection w"
  "noRejection (removeHighlight w) = noRejection w"
  "noRejection (updateInstance i f w) = noRejection w"
  by (auto simp: noRejection_def cleanup_def highlightElement_def removeHighlight_def
      updateInstance_def Let_def split: option.splits)

lemma noRejection_runAxe: "noRejection w \<Longrightarrow> noRejection (runAxe i b w)"
proof -
  assume a: "noRejection w"
  have "noRejection (w \<lparr> axeQueue := q, submitted := s \<rparr>)" for q s
    using a by (simp add: noRejection_def)
  then show ?thesis
    using a by (simp add: runAxe_def noRejection_loop)
qed

lemma noRejection_step: "noRejection w \<Longrightarrow> noRejection (step ev w)"
  by (cases ev)
    (auto simp: noRejection_runAxe noRejection_other resumeDrain_def noRejection_resume
      split: prod.splits)

lemma noRejection_exec: "noRejection w \<Longrightarrow> noRejection (exec evs w)"
  by (induction evs arbitrary: w) (simp_all add: noRejection_step)

lemma noRejection_initial: "noRejection (initialWorld opts)"
  by (simp add: noRejection_def initialWorld_def)

subsection \<open>Claim C6: failures of a scan\<close>

lemma catch_effects:
  "consoleOut (snd (catchBlock (i, b) e w))
     = consoleOut w @ (if alreadyRunning e then [] else [ErrorRunningScan e])"
  "timers (snd (catchBlock (i, b) e w))
     = timers w @ (if alreadyRunning e \<and> b then [(1000, RetryInitialScan i)] else [])"
  "drains (snd (catchBlock (i, b) e w)) = drains w"
  "finished (snd (catchBlock (i, b) e w)) = finished w"
  by (cases e; simp)+

lemma failure_handled:
  assumes "d < length (drains w)" "drains w ! d = ((i, b), ph)"
    "(ph = AwaitScan \<and> ev = ScanRejected d e) \<or> (ph = AwaitImport \<and> ev = ImportRejected d e)"
  shows "drains (step ev w) = (drains w) [d := ((i, b), Fulfilled)]
         \<and> \<not> isAxeRunning (step ev w) \<and> \<not> isRunning (instances (step ev w) i)
         \<and> consoleOut (step ev w)
             = consoleOut w @ (if alreadyRunning e then [] else [ErrorRunningScan e])
         \<and> timers (step ev w)
             = timers w @ (if alreadyRunning e \<and> b then [(1000, RetryInitialScan i)] else [])"
  using assms catch_effects [of i b e w]
  by (auto simp: resumeDrain_def suspendAt_def Let_def updateInstance_def)

text \<open>
  Claim C6. When the import or the scanner fails, the thunk's promise is fulfilled and
  both running flags are cleared. An \<^verbatim>\<open>Error\<close> whose message contains
  \<^verbatim>\<open>Axe is already running\<close> logs nothing; for an initial scan it sets one timer of
  1000 ms that calls \<^verbatim>\<open>runAxe(true)\<close> again, for any other scan it sets none. Every
  other failure is logged with \<^verbatim>\<open>console.error\<close> and sets no timer. In no reachable
  state has an awaited thunk rejected, so nothing reaches the \<^verbatim>\<open>catch\<close> of
  \<^verbatim>\<open>processAxeQueue\<close>, whose promise \<^verbatim>\<open>runAxe\<close> does not await: the caller of
  \<^verbatim>\<open>runAxe\<close> sees no exception and no rejection.
\<close>

theorem scanner_failures_swallowed:
  "noRejection (exec evs (initialWorld opts))
   \<and> (d < length (drains w) \<and> drains w ! d = ((i, b), ph)
        \<and> ((ph = AwaitScan \<and> ev = ScanRejected d e) \<or> (ph = AwaitImport \<and> ev = ImportRejected d e))
      \<longrightarrow> drains (step ev w) = (drains w) [d := ((i, b), Fulfilled)]
          \<and> \<not> isAxeRunning (step ev w) \<and> \<not> isRunning (instances (step ev w) i)
          \<and> consoleOut (step ev w)
              = consoleOut w @ (if alreadyRunning e then [] else [ErrorRunningScan e])
          \<and> timers (step ev w)
              = timers w @ (if alreadyRunning e \<and> b then [(1000, RetryInitialScan i)] else []))"
  using noRejection_exec [OF noRejection_initial, of evs opts] failure_handled [of d w i b ph ev e]
  by blast

theorem scanner_failures_swallowed_witness:
  "drains scanningInitial = [((0, True), AwaitScan)]
   \<and> drains midScan = [((0, False), AwaitScan)]
   \<and> alreadyRunning busyError \<and> \<not> alreadyRunning otherError
   \<and> drains (step (ScanRejected 0 busyError) scanningInitial) = [((0, True), Fulfilled)]
   \<and> consoleOut (step (ScanRejected 0 busyError) scanningInitial) = consoleOut scanningInitial
   \<and> timers (step (ScanRejected 0 busyError) scanningInitial)
       = timers scanningInitial @ [(1000, RetryInitialScan 0)]
   \<and> consoleOut (step (ScanRejected 0 busyError) midScan) = consoleOut midScan
   \<and> timers (step (ScanRejected 0 busyError) midScan) = timers midScan
   \<and> consoleOut (step (ScanRejected 0 otherError) midScan)
       = consoleOut midScan @ [ErrorRunningScan otherError]
   \<and> timers (step (ScanRejected 0 otherError) midScan) = timers midScan
   \<and> \<not> isAxeRunning (step (ScanRejected 0 otherError) midScan)"
  using scanner_failures_swallowed [of "[]" optsOn 0 scanningInitial 0 True AwaitScan
          "ScanRejected 0 busyError" busyError]
    scanner_failures_swallowed [of "[]" optsOn 0 midScan 0 False AwaitScan
          "ScanRejected 0 busyError" busyError]
    scanner_failures_swallowed [of "[]" optsOn 0 midScan 0 False AwaitScan
          "ScanRejected 0 otherError" otherError]
    scanningInitial_fields midScan_fields error_kinds
  by simp

subsection \<open>Progress of the queue\<close>

lemma running_frame:
  "isAxeRunning (snd (catchBlock t e w)) = isAxeRunning w"
  "\<not> isAxeRunning (finallyBlock t w)"
  by (cases t; cases e; simp add: updateInstance_def)+

lemma phase_running_afterImport:
  "isAxeRunning (snd (settle t (afterImport t x w))) \<longrightarrow>
     fst (settle t (afterImport t x w)) = AwaitReadiness \<or> fst (settle t (afterImport t x w)) = AwaitScan"
  by (cases t; cases x) (auto simp: running_frame Let_def updateInstance_def split: option.splits)

lemma running_afterReadiness:
  "isAxeRunning (snd (settle t (afterReadiness t b w))) = isAxeRunning w"
  by (simp add: afterReadiness_def)

lemma running_afterScan: "\<not> isAxeRunning (snd (settle t (afterScan t x w)))"
proof (cases t)
  case (Pair i b)
  show ?thesis
  proof (cases x)
    case (Inl e)
    then show ?thesis using Pair by (simp add: updateInstance_def)
  next
    case (Inr rl)
    obtain results locate where rl: "rl = (results, locate)" by (cases rl)
    show ?thesis unfolding Pair Inr rl
      by (cases b) (simp_all add: Let_def updateInstance_def)
  qed
qed

lemma running_suspendAt: "isAxeRunning (suspendAt d t pw) = isAxeRunning (snd pw)"
  by (cases pw) (simp add: suspendAt_def Let_def)

lemma drains_suspendAt:
  "drains (snd pw) = [(t, ph0)] \<Longrightarrow> drains (suspendAt 0 t pw) = [(t, fst pw)]"
  by (cases pw) (simp add: suspendAt_def Let_def)

lemma running_continueLoop:
  "\<not> isAxeRunning w \<Longrightarrow> \<not> isAxeRunning (continueLoop d w)"
  by (auto simp: continueLoop_def loopHead_def queuedRun_def Let_def split: list.splits)

lemma resume_unawaited: "\<not> awaitedBy ph ev \<Longrightarrow> resume d t ph ev w = w"
  by (cases ph; cases ev) simp_all

lemma sound_resume:
  assumes "isAxeRunning w \<longrightarrow> scanInFlight w" "drains w = [(t, ph)]"
  shows "isAxeRunning (resume 0 t ph ev w) \<longrightarrow> scanInFlight (resume 0 t ph ev w)"
proof (cases "awaitedBy ph ev")
  case False
  then show ?thesis using assms(1) by (simp add: resume_unawaited)
next
  case True
  have run: "isAxeRunning w \<Longrightarrow> ph = AwaitReadiness \<or> ph = AwaitScan"
    using assms by (auto simp: scanInFlight_def)
  have sus: "isAxeRunning (suspendAt 0 t pw) \<longrightarrow> scanInFlight (suspendAt 0 t pw)"
    if "drains (snd pw) = drains w"
      and "isAxeRunning (snd pw) \<longrightarrow> fst pw = AwaitReadiness \<or> fst pw = AwaitScan" for pw
  proof -
    have "drains (suspendAt 0 t pw) = [(t, fst pw)]"
      using drains_suspendAt [of pw t ph] that(1) assms(2) by simp
    then show ?thesis using that(2) by (auto simp: running_suspendAt scanInFlight_def)
  qed
  show ?thesis
  proof (cases ph)
    case AwaitImport
    with True obtain x where "resume 0 t ph ev w = suspendAt 0 t (settle t (afterImport t x w))"
      by (cases ev) auto
    then show ?thesis
      using sus [of "settle t (afterImport t x w)"] phase_running_afterImport [of t x w]
      by (simp add: drains_after)
  next
    case AwaitReadiness
    with True obtain b where "resume 0 t ph ev w = suspendAt 0 t (settle t (afterReadiness t b w))"
      by (cases ev) auto
    then show ?thesis
      using sus [of "settle t (afterReadiness t b w)"]
      by (simp add: drains_after afterReadiness_phase)
  next
    case AwaitScan
    with True obtain x where "resume 0 t ph ev w = suspendAt 0 t (settle t (afterScan t x w))"
      by (cases ev) auto
    then show ?thesis
      using sus [of "settle t (afterScan t x w)"] running_afterScan [of t x w]
      by (simp add: drains_after)
  next
    case Fulfilled
    then have "\<not> isAxeRunning w" using run by auto
    then show ?thesis using Fulfilled True running_continueLoop [of w 0]
      by (cases ev) simp_all
  next
    case (Rejected e)
    then have "\<not> isAxeRunning (w \<lparr> consoleOut := consoleOut w @ [ErrorQueuedScan e] \<rparr>)"
      using run by auto
    then show ?thesis using Rejected True
        running_continueLoop [of "w \<lparr> consoleOut := consoleOut w @ [ErrorQueuedScan e] \<rparr>" 0]
      by (cases ev) simp_all
  qed
qed

lemma sound_resumeDrain:
  assumes "sound w"
  shows "isAxeRunning (resumeDrain d ev w) \<longrightarrow> scanInFlight (resumeDrain d ev w)"
proof (cases "d < length (drains w)")
  case True
  then have d: "d = 0" and "length (drains w) = 1"
    using assms by (auto simp: sound_def serialized_def)
  then obtain t ph where "drains w = [(t, ph)]"
    by (cases "drains w") auto
  then show ?thesis
    using sound_resume [of w t ph ev] assms d by (simp add: resumeDrain_def sound_def)
next
  case False
  then show ?thesis using assms by (simp add: resumeDrain_def sound_def)
qed

lemma sound_runAxe:
  assumes "sound w"
  shows "isAxeRunning (runAxe i b w) \<longrightarrow> scanInFlight (runAxe i b w)"
  using assms
  by (auto simp: sound_def serialized_def scanInFlight_def runAxe_def processAxeQueue_def
      loopHead_def queuedRun_def Let_def split: list.splits)

lemma sound_other:
  assumes "isAxeRunning w \<longrightarrow> scanInFlight w"
  shows "isAxeRunning (cleanup i w) \<longrightarrow> scanInFlight (cleanup i w)"
    and "isAxeRunning (highlightElement i r w) \<longrightarrow> scanInFlight (highlightElement i r w)"
    and "isAxeRunning (removeHighlight w) \<longrightarrow> scanInFlight (removeHighlight w)"
    and "isAxeRunning (updateInstance i f w) \<longrightarrow> scanInFlight (updateInstance i f w)"
  using assms
  by (auto simp: scanInFlight_def cleanup_def highlightElement_def removeHighlight_def
      updateInstance_def Let_def split: option.splits)

lemma sound_step: "sound w \<Longrightarrow> sound (step ev w)"
proof -
  assume s: "sound w"
  then have r: "isAxeRunning w \<longrightarrow> scanInFlight w" by (simp add: sound_def)
  have "isAxeRunning (step ev w) \<longrightarrow> scanInFlight (step ev w)"
    using sound_runAxe [OF s] sound_resumeDrain [OF s] sound_other [OF r]
    by (cases ev) simp_all
  moreover have "serialized (step ev w)"
    using s by (simp add: sound_def serialized_step)
  ultimately show ?thesis by (simp add: sound_def)
qed

lemma sound_exec: "sound w \<Longrightarrow> sound (exec evs w)"
  by (induction evs arbitrary: w) (simp_all add: sound_step)

lemma sound_initial: "sound (initialWorld opts)"
  using serialized_initial [of opts] by (simp add: sound_def initialWorld_def)

lemma sound_idle:
  assumes "sound w" "drains w = [] \<or> (drains w = [(t, ph)] \<and> isSettled ph)"
  shows "\<not> isAxeRunning w"
  using assms by (cases ph) (auto simp: sound_def scanInFlight_def)

lemma sound_single:
  assumes "sound w" "d < length (drains w)"
  shows "d = 0 \<and> drains w = [drains w ! 0]"
  using assms by (cases "drains w") (auto simp: sound_def serialized_def)

lemma sched_suspendAt_pair:
  "sched (suspendAt d t pw) =
     (case sched (snd pw) of (ds, flag, queue, sub, sta, fin) \<Rightarrow>
        (ds [d := (t, fst pw)], flag, queue, sub, sta,
         if isSettled (fst pw) then fin @ [t] else fin))"
  using sched_suspendAt [of d t "fst pw" "snd pw"] by simp

lemma rank_after:
  "rank (fst (settle t (afterImport t x w))) < 4"
  "rank (fst (settle t (afterReadiness t b w))) = 2"
  "rank (fst (settle t (afterScan t y w))) = 1"
  using afterImport_phase [of t x w] by (auto simp: afterReadiness_phase afterScan_phase)

lemma resume_sched:
  assumes "drains w = [(t, ph)]" "awaitedBy ph ev" "\<not> isSettled ph"
  shows "\<exists>ph'. rank ph' < rank ph
           \<and> sched (resume 0 t ph ev w)
               = ([(t, ph')], isProcessingQueue w, axeQueue w, submitted w, started w,
                  if isSettled ph' then finished w @ [t] else finished w)"
proof -
  have s: "sched w = ([(t, ph)], isProcessingQueue w, axeQueue w, submitted w, started w, finished w)"
    using assms(1) by (simp add: sched_def)
  show ?thesis
  proof (cases ph)
    case AwaitImport
    with assms(2) obtain x where "resume 0 t ph ev w = suspendAt 0 t (settle t (afterImport t x w))"
      by (cases ev) auto
    then show ?thesis using AwaitImport rank_after(1) [of t x w]
      by (intro exI [of _ "fst (settle t (afterImport t x w))"]) (simp add: sched_suspendAt_pair s)
  next
    case AwaitReadiness
    with assms(2) obtain b where "resume 0 t ph ev w = suspendAt 0 t (settle t (afterReadiness t b w))"
      by (cases ev) auto
    then show ?thesis using AwaitReadiness rank_after(2) [of t b w]
      by (intro exI [of _ "fst (settle t (afterReadiness t b w))"]) (simp add: sched_suspendAt_pair s)
  next
    case AwaitScan
    with assms(2) obtain x where "resume 0 t ph ev w = suspendAt 0 t (settle t (afterScan t x w))"
      by (cases ev) auto
    then show ?thesis using AwaitScan rank_after(3) [of t x w]
      by (intro exI [of _ "fst (settle t (afterScan t x w))"]) (simp add: sched_suspendAt_pair s)
  qed (use assms(3) in simp_all)
qed

lemma continue_sched:
  assumes "drains w = [(t, ph)]" "isSettled ph" "\<not> isAxeRunning w"
  shows "sched (step (Continue 0) w)
           = (case axeQueue w of
                [] \<Rightarrow> ([], False, [], submitted w, started w, finished w)
              | t' # q \<Rightarrow> ([(t', AwaitImport)], isProcessingQueue w, q, submitted w,
                           started w @ [t'], finished w))"
  using assms
  by (cases ph)
    (simp_all add: resumeDrain_def continueLoop_def loopHead_def queuedRun_def sched_def
      split: list.splits)

lemma pending_sched:
  "pending w = (case sched w of (ds, flag, queue, sub, sta, fin) \<Rightarrow>
                  4 * length queue + sum_list (map (\<lambda>(t, ph). rank ph) ds))"
  by (simp add: pending_def sched_def)

lemma sched_fields:
  "sched w' = (ds, flag, queue, sub, sta, fin) \<Longrightarrow>
   drains w' = ds \<and> isProcessingQueue w' = flag \<and> axeQueue w' = queue \<and> submitted w' = sub
   \<and> started w' = sta \<and> finished w' = fin"
  by (simp add: sched_def)

lemma resolution_step:
  assumes "sound w" "resolvesNext ev w"
  shows "pending (step ev w) < pending w \<and> submitted (step ev w) = submitted w"
proof -
  obtain d where d: "drainOf ev = Some d" "d < length (drains w)"
    "awaitedBy (snd (drains w ! d)) ev"
    using assms(2) by (auto simp: resolvesNext_def split: option.splits)
  obtain t ph where tp: "drains w ! 0 = (t, ph)" by (cases "drains w ! 0")
  have d0: "d = 0" and dr: "drains w = [(t, ph)]"
    using sound_single [OF assms(1) d(2)] tp by simp_all
  have aw: "awaitedBy ph ev" using d(3) d0 dr by simp
  have st: "step ev w = resume 0 t ph ev w"
    using d(1) d0 dr by (cases ev) (simp_all add: resumeDrain_def)
  show ?thesis
  proof (cases "isSettled ph")
    case False
    from resume_sched [OF dr aw False] obtain ph' where
      lt: "rank ph' < rank ph" and
      "sched (resume 0 t ph ev w)
               = ([(t, ph')], isProcessingQueue w, axeQueue w, submitted w, started w,
                  if isSettled ph' then finished w @ [t] else finished w)"
      by blast
    from sched_fields [OF this(2)] show ?thesis
      using lt dr st by (simp add: pending_def)
  next
    case True
    have nr: "\<not> isAxeRunning w" using sound_idle [OF assms(1), of t ph] dr True by simp
    have ev: "ev = Continue 0" using aw True d(1) d0 by (cases ph; cases ev) simp_all
    have rk: "rank ph = 1" using True by (cases ph) simp_all
    show ?thesis
    proof (cases "axeQueue w")
      case Nil
      then have "sched (step (Continue 0) w)
                   = ([], False, [], submitted w, started w, finished w)"
        using continue_sched [OF dr True nr] by simp
      from sched_fields [OF this] show ?thesis
        using dr ev rk Nil by (simp add: pending_def)
    next
      case (Cons t' q)
      then have "sched (step (Continue 0) w)
                   = ([(t', AwaitImport)], isProcessingQueue w, q, submitted w,
                      started w @ [t'], finished w)"
        using continue_sched [OF dr True nr] by simp
      from sched_fields [OF this] show ?thesis
        using dr ev rk Cons by (simp add: pending_def)
    qed
  qed
qed

lemma resolutions_exec:
  "sound w \<Longrightarrow> resolutions rs w \<Longrightarrow>
   sound (exec rs w) \<and> submitted (exec rs w) = submitted w"
proof (induction rs arbitrary: w)
  case Nil
  then show ?case by simp
next
  case (Cons ev rs)
  then show ?case
    using resolution_step [of w ev] sound_step [of w ev] by simp
qed

lemma pending_zero:
  assumes "sound w" "pending w = 0"
  shows "axeQueue w = [] \<and> drains w = [] \<and> \<not> isProcessingQueue w
         \<and> started w = submitted w \<and> finished w = submitted w"
proof -
  have "drains w = []"
  proof (cases "drains w")
    case (Cons p ps)
    then show ?thesis using assms(2) by (cases p; cases "snd p") (simp_all add: pending_def)
  qed simp
  then show ?thesis
    using assms by (auto simp: pending_def sound_def serialized_def inFlight_def)
qed

lemma resolveOnce_awaited: "awaitedBy ph (resolveOnce ph)" "drainOf (resolveOnce ph) = Some 0"
  by (cases ph; simp)+

lemma resolutions_exist:
  "sound w \<Longrightarrow> \<exists>rs. resolutions rs w \<and> length rs \<le> pending w \<and> pending (exec rs w) = 0"
proof (induction "pending w" arbitrary: w rule: less_induct)
  case less
  show ?case
  proof (cases "pending w = 0")
    case True
    then show ?thesis by (intro exI [of _ "[]"]) simp
  next
    case False
    have "drains w \<noteq> []"
      using False less.prems by (auto simp: pending_def sound_def serialized_def)
    then obtain t ph ds where dr: "drains w = (t, ph) # ds"
      by (cases "drains w") auto
    have r: "resolvesNext (resolveOnce ph) w"
      using dr by (simp add: resolvesNext_def resolveOnce_awaited)
    from resolution_step [OF less.prems r]
    have lt: "pending (step (resolveOnce ph) w) < pending w" by simp
    from less.hyps [OF lt sound_step [OF less.prems]]
    obtain rs where rs: "resolutions rs (step (resolveOnce ph) w)"
      "length rs \<le> pending (step (resolveOnce ph) w)"
      "pending (exec rs (step (resolveOnce ph) w)) = 0"
      by blast
    show ?thesis
      using r rs lt by (intro exI [of _ "resolveOnce ph # rs"]) simp
  qed
qed

lemma runAxe_idle:
  assumes "sound w" "drains w = []" "enabled (instances w i)"
    "\<not> (b \<and> hasRunInitialScan (instances w i))"
  shows "sched (step (RunAxe i b) w)
           = ([((i, b), AwaitImport)], True, [], submitted w @ [(i, b)], started w @ [(i, b)],
              finished w)"
proof -
  have "\<not> isAxeRunning w" using sound_idle [OF assms(1)] assms(2) by simp
  moreover have "axeQueue w = []" "\<not> isProcessingQueue w"
    using assms(1,2) by (auto simp: sound_def serialized_def)
  ultimately show ?thesis
    using assms(2,3,4)
    by (auto simp: runAxe_def processAxeQueue_def loopHead_def queuedRun_def sched_def)
qed

lemma runAxe_busy:
  assumes "serialized w" "drains w \<noteq> []" "enabled (instances w i)"
    "\<not> (b \<and> hasRunInitialScan (instances w i))"
  shows "sched (step (RunAxe i b) w)
           = (drains w, True, axeQueue w @ [(i, b)], submitted w @ [(i, b)], started w,
              finished w)"
proof -
  have "isProcessingQueue w" using assms(1,2) by (simp add: serialized_def)
  then show ?thesis
    using assms(3,4) by (auto simp: runAxe_def processAxeQueue_def sched_def)
qed

lemma started_unsettled:
  assumes "serialized w" "drains w = [(t, ph)]" "\<not> isSettled ph"
  shows "started (step ev w) = started w"
proof -
  have flag: "isProcessingQueue w" using assms(1,2) by (simp add: serialized_def)
  have r: "started (resume 0 t ph ev' w) = started w" for ev'
  proof (cases "awaitedBy ph ev'")
    case True
    from resume_sched [OF assms(2) True assms(3)] show ?thesis by (auto simp: sched_def)
  qed (simp add: resume_unawaited)
  have rd: "started (resumeDrain d ev' w) = started w" for d ev'
    using r [of ev'] assms(2) by (simp add: resumeDrain_def)
  show ?thesis
    using flag rd
    by (cases ev)
      (auto simp: runAxe_def processAxeQueue_def cleanup_def highlightElement_def
        removeHighlight_def updateInstance_def Let_def split: option.splits)
qed

subsection \<open>Claim C1: scans are serialized\<close>

text \<open>
  Claim C1. In every state the event loop can reach from the initial one, whatever the
  instances call and however the awaited promises settle: at most one invocation of
  \<^verbatim>\<open>processAxeQueue\<close> is suspended (the flag \<open>isProcessingQueue\<close> is set exactly
  then, so no second drain starts), at most one thunk is in flight, no thunk waits in
  the queue without a drain, the thunks are started in the order in which they were
  pushed, and each has settled (its \<^verbatim>\<open>catch\<close> and \<^verbatim>\<open>finally\<close> blocks included) before
  the next one is started. The flag \<open>isAxeRunning\<close> is set only while the thunk in
  flight awaits the readiness gate or the scanner, so no thunk taken from the queue is
  skipped. A request made while nothing is suspended starts its thunk at once, at the
  import; a request made while a drain is suspended only appends its thunk to the queue.
  While the thunk in flight has not settled, no event starts another thunk. When it has
  settled, the loop takes the head of the queue and starts it at its import, or, with an
  empty queue, ends and clears \<open>isProcessingQueue\<close>. Every settlement of an awaited
  promise lowers the work the queue holds; some sequence of settlements no longer than
  that work empties it; and when it is empty, every thunk pushed so far has been started
  and has settled, in the order of the requests.
\<close>

theorem scans_serialized:
  assumes "w = exec evs (initialWorld opts)"
  shows
  "length (drains w) \<le> 1
   \<and> length (inFlight w) \<le> 1
   \<and> (isProcessingQueue w \<longleftrightarrow> drains w \<noteq> [])
   \<and> (axeQueue w = [] \<or> isProcessingQueue w)
   \<and> started w @ axeQueue w = submitted w
   \<and> finished w @ inFlight w = started w
   \<and> (isAxeRunning w \<longrightarrow> scanInFlight w)
   \<and> (drains w = [] \<and> enabled (instances w i) \<and> \<not> (b \<and> hasRunInitialScan (instances w i))
      \<longrightarrow> drains (step (RunAxe i b) w) = [((i, b), AwaitImport)]
          \<and> axeQueue (step (RunAxe i b) w) = []
          \<and> started (step (RunAxe i b) w) = started w @ [(i, b)])
   \<and> (drains w \<noteq> [] \<and> enabled (instances w i) \<and> \<not> (b \<and> hasRunInitialScan (instances w i))
      \<longrightarrow> drains (step (RunAxe i b) w) = drains w
          \<and> axeQueue (step (RunAxe i b) w) = axeQueue w @ [(i, b)]
          \<and> started (step (RunAxe i b) w) = started w)
   \<and> (drains w = [(t, ph)] \<and> \<not> isSettled ph \<longrightarrow> started (step ev w) = started w)
   \<and> (drains w = [(t, ph)] \<and> isSettled ph \<and> axeQueue w = t' # q
      \<longrightarrow> drains (step (Continue 0) w) = [(t', AwaitImport)]
          \<and> axeQueue (step (Continue 0) w) = q
          \<and> started (step (Continue 0) w) = started w @ [t']
          \<and> isProcessingQueue (step (Continue 0) w))
   \<and> (drains w = [(t, ph)] \<and> isSettled ph \<and> axeQueue w = []
      \<longrightarrow> drains (step (Continue 0) w) = []
          \<and> \<not> isProcessingQueue (step (Continue 0) w))
   \<and> (resolvesNext ev w
      \<longrightarrow> pending (step ev w) < pending w \<and> submitted (step ev w) = submitted w)
   \<and> (\<exists>rs. resolutions rs w \<and> length rs \<le> pending w \<and> pending (exec rs w) = 0)
   \<and> (resolutions rs w \<and> pending (exec rs w) = 0
      \<longrightarrow> axeQueue (exec rs w) = [] \<and> drains (exec rs w) = []
          \<and> \<not> isProcessingQueue (exec rs w)
          \<and> started (exec rs w) = submitted w \<and> finished (exec rs w) = submitted w)"
proof -
  have s: "sound w"
    unfolding assms by (rule sound_exec) (rule sound_initial)
  then have ser: "serialized w" and run: "isAxeRunning w \<longrightarrow> scanInFlight w"
    by (simp_all add: sound_def)
  have le: "length (inFlight w) \<le> length (drains w)"
    by (simp add: inFlight_def)
  have inv: "length (drains w) \<le> 1" "length (inFlight w) \<le> 1"
    "isProcessingQueue w \<longleftrightarrow> drains w \<noteq> []" "axeQueue w = [] \<or> isProcessingQueue w"
    "started w @ axeQueue w = submitted w" "finished w @ inFlight w = started w"
    using ser le by (auto simp: serialized_def)
  have idle: "drains w = [] \<and> enabled (instances w i) \<and> \<not> (b \<and> hasRunInitialScan (instances w i))
      \<longrightarrow> drains (step (RunAxe i b) w) = [((i, b), AwaitImport)]
          \<and> axeQueue (step (RunAxe i b) w) = []
          \<and> started (step (RunAxe i b) w) = started w @ [(i, b)]"
  proof (intro impI)
    assume a: "drains w = [] \<and> enabled (instances w i) \<and> \<not> (b \<and> hasRunInitialScan (instances w i))"
    from sched_fields [OF runAxe_idle [OF s, of i b]] a show
      "drains (step (RunAxe i b) w) = [((i, b), AwaitImport)]
          \<and> axeQueue (step (RunAxe i b) w) = []
          \<and> started (step (RunAxe i b) w) = started w @ [(i, b)]"
      by simp
  qed
  have busy: "drains w \<noteq> [] \<and> enabled (instances w i) \<and> \<not> (b \<and> hasRunInitialScan (instances w i))
      \<longrightarrow> drains (step (RunAxe i b) w) = drains w
          \<and> axeQueue (step (RunAxe i b) w) = axeQueue w @ [(i, b)]
          \<and> started (step (RunAxe i b) w) = started w"
  proof (intro impI)
    assume a: "drains w \<noteq> [] \<and> enabled (instances w i) \<and> \<not> (b \<and> hasRunInitialScan (instances w i))"
    from sched_fields [OF runAxe_busy [OF ser, of i b]] a show
      "drains (step (RunAxe i b) w) = drains w
          \<and> axeQueue (step (RunAxe i b) w) = axeQueue w @ [(i, b)]
          \<and> started (step (RunAxe i b) w) = started w"
      by simp
  qed
  have wait: "drains w = [(t, ph)] \<and> \<not> isSettled ph \<longrightarrow> started (step ev w) = started w"
    using started_unsettled [OF ser, of t ph ev] by simp
  have nxt: "drains w = [(t, ph)] \<and> isSettled ph \<and> axeQueue w = t' # q
      \<longrightarrow> drains (step (Continue 0) w) = [(t', AwaitImport)]
          \<and> axeQueue (step (Continue 0) w) = q
          \<and> started (step (Continue 0) w) = started w @ [t']
          \<and> isProcessingQueue (step (Continue 0) w)"
  proof (intro impI)
    assume a: "drains w = [(t, ph)] \<and> isSettled ph \<and> axeQueue w = t' # q"
    then have nr: "\<not> isAxeRunning w" using sound_idle [OF s, of t ph] by simp
    have "sched (step (Continue 0) w)
            = ([(t', AwaitImport)], isProcessingQueue w, q, submitted w, started w @ [t'],
               finished w)"
      using continue_sched [of w t ph] a nr by simp
    from sched_fields [OF this] show
      "drains (step (Continue 0) w) = [(t', AwaitImport)]
          \<and> axeQueue (step (Continue 0) w) = q
          \<and> started (step (Continue 0) w) = started w @ [t']
          \<and> isProcessingQueue (step (Continue 0) w)"
      using a inv(3) by simp
  qed
  have fin: "drains w = [(t, ph)] \<and> isSettled ph \<and> axeQueue w = []
      \<longrightarrow> drains (step (Continue 0) w) = []
          \<and> \<not> isProcessingQueue (step (Continue 0) w)"
  proof (intro impI)
    assume a: "drains w = [(t, ph)] \<and> isSettled ph \<and> axeQueue w = []"
    then have nr: "\<not> isAxeRunning w" using sound_idle [OF s, of t ph] by simp
    have "sched (step (Continue 0) w) = ([], False, [], submitted w, started w, finished w)"
      using continue_sched [of w t ph] a nr by simp
    from sched_fields [OF this] show
      "drains (step (Continue 0) w) = [] \<and> \<not> isProcessingQueue (step (Continue 0) w)"
      by simp
  qed
  have prog: "resolvesNext ev w
      \<longrightarrow> pending (step ev w) < pending w \<and> submitted (step ev w) = submitted w"
    using resolution_step [OF s, of ev] by simp
  have ex: "\<exists>rs. resolutions rs w \<and> length rs \<le> pending w \<and> pending (exec rs w) = 0"
    by (rule resolutions_exist [OF s])
  have settled: "resolutions rs w \<and> pending (exec rs w) = 0
      \<longrightarrow> axeQueue (exec rs w) = [] \<and> drains (exec rs w) = []
          \<and> \<not> isProcessingQueue (exec rs w)
          \<and> started (exec rs w) = submitted w \<and> finished (exec rs w) = submitted w"
  proof (intro impI)
    assume a: "resolutions rs w \<and> pending (exec rs w) = 0"
    from resolutions_exec [OF s, of rs] a
    have "sound (exec rs w)" "submitted (exec rs w) = submitted w" by simp_all
    with pending_zero [of "exec rs w"] a show
      "axeQueue (exec rs w) = [] \<and> drains (exec rs w) = []
          \<and> \<not> isProcessingQueue (exec rs w)
          \<and> started (exec rs w) = submitted w \<and> finished (exec rs w) = submitted w"
      by simp
  qed
  show ?thesis
    by (intro conjI) (fact inv run idle busy wait nxt fin prog ex settled)+
qed

lemma firstDone_fields:
  "drains firstDone = [((0, False), Fulfilled)]"
  "axeQueue firstDone = [(1, False)]"
  "submitted firstDone = [(0, False), (1, False)]"
  "started firstDone = [(0, False)]"
  "finished firstDone = [(0, False)]"
  "scans firstDone = [(0, False)]"
  by (simp_all add: firstDone_def machine_defs optsOn_def Let_def)

lemma firstDone_rest:
  "drains (exec [RunAxe 0 False] (initialWorld optsOn)) = [((0, False), AwaitImport)]"
  "enabled (instances (exec [RunAxe 0 False] (initialWorld optsOn)) 1)"
  "axeQueue (exec [RunAxe 0 False] (initialWorld optsOn)) = []"
  "started (exec [RunAxe 0 False] (initialWorld optsOn)) = [(0, False)]"
  "pending firstDone = 5"
  "resolutions [Continue 0, ImportResolved 0 (Some readyDiv), ScanResolved 0 [] noElement,
                Continue 0] firstDone"
  "pending (exec [Continue 0, ImportResolved 0 (Some readyDiv), ScanResolved 0 [] noElement,
                  Continue 0] firstDone) = 0"
  "scans (exec [Continue 0, ImportResolved 0 (Some readyDiv), ScanResolved 0 [] noElement,
                  Continue 0] firstDone) = [(0, False), (1, False)]"
  by (simp_all add: firstDone_def machine_defs optsOn_def Let_def pending_def resolvesNext_def)

lemma secondDone_fields:
  "secondDone = exec [RunAxe 0 False, RunAxe 1 False, ImportResolved 0 (Some readyDiv),
                      ScanResolved 0 [exX] noElement, Continue 0,
                      ImportResolved 0 (Some readyDiv), ScanResolved 0 [] noElement]
                  (initialWorld optsOn)"
  "drains secondDone = [((1, False), Fulfilled)]"
  "axeQueue secondDone = []"
  "finished secondDone = [(0, False), (1, False)]"
  by (simp_all add: secondDone_def firstDone_def machine_defs optsOn_def Let_def)

lemma idle_fields:
  "drains (initialWorld optsOn) = []"
  "enabled (instances (initialWorld optsOn) 0)"
  "started (initialWorld optsOn) = []"
  "midScan = exec [RunAxe 0 False, ImportResolved 0 (Some readyDiv)] (initialWorld optsOn)"
  by (simp_all add: midScan_def machine_defs optsOn_def Let_def)

theorem scans_serialized_witness:
  "drains (initialWorld optsOn) = []
   \<and> drains (step (RunAxe 0 False) (initialWorld optsOn)) = [((0, False), AwaitImport)]
   \<and> started (step (RunAxe 0 False) (initialWorld optsOn)) = [(0, False)]
   \<and> drains (exec [RunAxe 0 False] (initialWorld optsOn)) = [((0, False), AwaitImport)]
   \<and> drains (step (RunAxe 1 False) (exec [RunAxe 0 False] (initialWorld optsOn)))
       = [((0, False), AwaitImport)]
   \<and> axeQueue (step (RunAxe 1 False) (exec [RunAxe 0 False] (initialWorld optsOn)))
       = [(1, False)]
   \<and> started (step (RunAxe 1 False) (exec [RunAxe 0 False] (initialWorld optsOn)))
       = [(0, False)]
   \<and> isAxeRunning midScan \<and> scanInFlight midScan
   \<and> drains firstDone = [((0, False), Fulfilled)]
   \<and> axeQueue firstDone = [(1, False)]
   \<and> started firstDone = [(0, False)]
   \<and> finished firstDone = [(0, False)]
   \<and> drains (step (Continue 0) firstDone) = [((1, False), AwaitImport)]
   \<and> axeQueue (step (Continue 0) firstDone) = []
   \<and> started (step (Continue 0) firstDone) = [(0, False), (1, False)]
   \<and> pending firstDone = 5
   \<and> pending (step (Continue 0) firstDone) < 5
   \<and> drains secondDone = [((1, False), Fulfilled)]
   \<and> axeQueue secondDone = []
   \<and> drains (step (Continue 0) secondDone) = []
   \<and> \<not> isProcessingQueue (step (Continue 0) secondDone)
   \<and> started (exec [Continue 0, ImportResolved 0 (Some readyDiv), ScanResolved 0 [] noElement,
                     Continue 0] firstDone) = [(0, False), (1, False)]
   \<and> finished (exec [Continue 0, ImportResolved 0 (Some readyDiv), ScanResolved 0 [] noElement,
                      Continue 0] firstDone) = [(0, False), (1, False)]
   \<and> scans (exec [Continue 0, ImportResolved 0 (Some readyDiv), ScanResolved 0 [] noElement,
                   Continue 0] firstDone) = [(0, False), (1, False)]
   \<and> \<not> isProcessingQueue
         (exec [Continue 0, ImportResolved 0 (Some readyDiv), ScanResolved 0 [] noElement,
                Continue 0] firstDone)"
proof -
  have a: "firstDone = exec [RunAxe 0 False, RunAxe 1 False, ImportResolved 0 (Some readyDiv),
                             ScanResolved 0 [exX] noElement] (initialWorld optsOn)"
    by (rule firstDone_def)
  have b: "exec [RunAxe 0 False] (initialWorld optsOn) = exec [RunAxe 0 False] (initialWorld optsOn)"
    by (rule refl)
  have c: "initialWorld optsOn = exec [] (initialWorld optsOn)"
    by simp
  have r: "resolvesNext (Continue 0) firstDone"
    by (simp add: resolvesNext_def firstDone_fields)
  have idle: "drains (step (RunAxe 0 False) (initialWorld optsOn)) = [((0, False), AwaitImport)]
              \<and> started (step (RunAxe 0 False) (initialWorld optsOn)) = [(0, False)]"
    using scans_serialized [OF c, where i = 0 and b = False] idle_fields(1-3)
    by simp
  have busy: "drains (step (RunAxe 1 False) (exec [RunAxe 0 False] (initialWorld optsOn)))
                = [((0, False), AwaitImport)]
              \<and> axeQueue (step (RunAxe 1 False) (exec [RunAxe 0 False] (initialWorld optsOn)))
                = [(1, False)]
              \<and> started (step (RunAxe 1 False) (exec [RunAxe 0 False] (initialWorld optsOn)))
                = [(0, False)]"
    using scans_serialized [OF b, where i = 1 and b = False and t = "(0, False)"
        and ph = AwaitImport and ev = "RunAxe 1 False"]
      firstDone_rest(1-4)
    by simp
  have running: "isAxeRunning midScan \<and> scanInFlight midScan"
    using scans_serialized [OF idle_fields(4)] midScan_fields(1)
    by simp
  have nxt: "drains (step (Continue 0) firstDone) = [((1, False), AwaitImport)]
             \<and> axeQueue (step (Continue 0) firstDone) = []
             \<and> started (step (Continue 0) firstDone) = [(0, False), (1, False)]
             \<and> pending (step (Continue 0) firstDone) < 5"
    using scans_serialized [OF a, where t = "(0, False)" and ph = Fulfilled
        and t' = "(1, False)" and q = "[]" and ev = "Continue 0"]
      firstDone_fields firstDone_rest(5) r
    by simp
  have fin: "drains (step (Continue 0) secondDone) = []
             \<and> \<not> isProcessingQueue (step (Continue 0) secondDone)"
    using scans_serialized [OF secondDone_fields(1), where t = "(1, False)" and ph = Fulfilled]
      secondDone_fields(2,3)
    by simp
  have all: "started (exec [Continue 0, ImportResolved 0 (Some readyDiv),
                            ScanResolved 0 [] noElement, Continue 0] firstDone)
               = [(0, False), (1, False)]
             \<and> finished (exec [Continue 0, ImportResolved 0 (Some readyDiv),
                               ScanResolved 0 [] noElement, Continue 0] firstDone)
               = [(0, False), (1, False)]
             \<and> \<not> isProcessingQueue
                   (exec [Continue 0, ImportResolved 0 (Some readyDiv),
                          ScanResolved 0 [] noElement, Continue 0] firstDone)"
    using scans_serialized [OF a, where rs = "[Continue 0, ImportResolved 0 (Some readyDiv),
        ScanResolved 0 [] noElement, Continue 0]"]
      firstDone_fields(3) firstDone_rest(6,7)
    by simp
  show ?thesis
    using idle busy running nxt fin all idle_fields(1) firstDone_rest(1,5,8) firstDone_fields
      secondDone_fields(2,3)
    by simp
qed

subsection \<open>Claim C2: the initial scan\<close>

text \<open>
  Claim C2 says that two calls \<^verbatim>\<open>runAxe(true)\<close> made before the first initial scan
  completes lead to exactly one executed initial scan. The guard of \<^verbatim>\<open>runAxe\<close> reads
  \<open>hasRunInitialScan\<close>, which is set only when an initial scan has succeeded, so both
  calls push a thunk; the queue runs them one after the other and both call the scanner.
\<close>

theorem initial_scan_twice_counterexample:
  "scans (exec twoInitialCalls (initialWorld optsOn)) = [(0, True), (0, True)]
   \<and> finished (exec twoInitialCalls (initialWorld optsOn)) = [(0, True), (0, True)]
   \<and> length (filter (\<lambda>t. t = (0, True)) (scans (exec twoInitialCalls (initialWorld optsOn)))) \<noteq> 1"
  by (simp add: twoInitialCalls_def machine_defs optsOn_def Let_def logViolations_def)

lemma hasRun_runAxe:
  "hasRunInitialScan (instances (runAxe j b w) i) = hasRunInitialScan (instances w i)"
  by (auto simp: runAxe_def processAxeQueue_def loopHead_def queuedRun_def Let_def
      split: list.splits)

lemma submitted_runAxe:
  "enabled (instances w i) \<Longrightarrow> \<not> hasRunInitialScan (instances w i) \<Longrightarrow>
   submitted (runAxe i True w) = submitted w @ [(i, True)]"
  by (auto simp: runAxe_def processAxeQueue_def loopHead_def queuedRun_def Let_def
      split: list.splits)

lemma hasRun_scan:
  assumes "d < length (drains w)" "drains w ! d = ((i, True), AwaitScan)"
  shows "hasRunInitialScan (instances (step (ScanResolved d results locate) w) i)"
  using assms
  by (simp add: resumeDrain_def suspendAt_def Let_def updateInstance_def)

lemma initialTwice_run:
  assumes "sound w" "drains w = []" "enabled (instances w i)"
    "\<not> hasRunInitialScan (instances w i)"
  shows "scans (exec (initialTwice i el1 r1 results locate el2 r2) w)
           = scans w @ [(i, True), (i, True)]
         \<and> started (exec (initialTwice i el1 r1 results locate el2 r2) w)
           = started w @ [(i, True), (i, True)]
         \<and> hasRunInitialScan (instances (exec (initialTwice i el1 r1 results locate el2 r2) w) i)"
proof -
  have "\<not> isAxeRunning w" using sound_idle [OF assms(1)] assms(2) by simp
  moreover have "axeQueue w = []" "\<not> isProcessingQueue w"
    using assms(1,2) by (auto simp: sound_def serialized_def)
  ultimately show ?thesis
    using assms(2,3,4)
    by (simp add: initialTwice_def machine_defs Let_def)
qed

lemma initial_thunk_scans:
  assumes "d < length (drains w)"
  shows "drains w ! d = ((i, True), AwaitImport) \<longrightarrow>
           drains (step (ImportResolved d (Some el)) w) ! d = ((i, True), AwaitReadiness)"
    and "drains w ! d = ((i, True), AwaitReadiness) \<longrightarrow>
           drains (step (ReadinessResolved d ready) w) ! d = ((i, True), AwaitScan)
           \<and> scans (step (ReadinessResolved d ready) w) = scans w @ [(i, True)]"
  using assms
  by (simp_all add: resumeDrain_def suspendAt_def Let_def updateInstance_def afterReadiness_def)

text \<open>
  Claim C2, amended. Once an instance has completed an initial scan, a further call
  \<^verbatim>\<open>runAxe(true)\<close> changes nothing. Before that, every call \<^verbatim>\<open>runAxe(true)\<close> of an
  enabled instance pushes its own initial-scan thunk: no call of \<^verbatim>\<open>runAxe\<close> sets
  \<open>hasRunInitialScan\<close>, it is the successful completion of an initial scan that does.
  A started initial-scan thunk does not read \<open>hasRunInitialScan\<close>: when its import
  succeeds and its target element exists it awaits the readiness gate, and then calls the
  scanner. So when an enabled instance calls \<^verbatim>\<open>runAxe(true)\<close> twice while no drain is
  suspended and before it has completed an initial scan, both thunks find their target
  element and the first scan succeeds, the scanner is called for two initial scans, one
  after the other, the second one although the first has completed and set
  \<open>hasRunInitialScan\<close>.
\<close>

theorem initial_scan_guard:
  "(hasRunInitialScan (instances w i) \<longrightarrow> step (RunAxe i True) w = w)
   \<and> (enabled (instances w i) \<and> \<not> hasRunInitialScan (instances w i) \<longrightarrow>
        submitted (step (RunAxe i True) w) = submitted w @ [(i, True)])
   \<and> hasRunInitialScan (instances (step (RunAxe j b) w) i)
       = hasRunInitialScan (instances w i)
   \<and> (d < length (drains w) \<and> drains w ! d = ((i, True), AwaitScan) \<longrightarrow>
        hasRunInitialScan (instances (step (ScanResolved d results locate) w) i))
   \<and> (d < length (drains w) \<and> drains w ! d = ((i, True), AwaitImport) \<longrightarrow>
        drains (step (ImportResolved d (Some el)) w) ! d = ((i, True), AwaitReadiness))
   \<and> (d < length (drains w) \<and> drains w ! d = ((i, True), AwaitReadiness) \<longrightarrow>
        drains (step (ReadinessResolved d ready) w) ! d = ((i, True), AwaitScan)
        \<and> scans (step (ReadinessResolved d ready) w) = scans w @ [(i, True)])
   \<and> (w = exec evs (initialWorld opts) \<and> drains w = [] \<and> enabled (instances w i)
        \<and> \<not> hasRunInitialScan (instances w i) \<longrightarrow>
        scans (exec (initialTwice i el ready results locate el' ready') w)
          = scans w @ [(i, True), (i, True)]
        \<and> started (exec (initialTwice i el ready results locate el' ready') w)
          = started w @ [(i, True), (i, True)]
        \<and> hasRunInitialScan
            (instances (exec (initialTwice i el ready results locate el' ready') w) i))"
proof -
  have a: "hasRunInitialScan (instances w i) \<longrightarrow> step (RunAxe i True) w = w"
    by (simp add: runAxe_def)
  have g: "w = exec evs (initialWorld opts) \<and> drains w = [] \<and> enabled (instances w i)
        \<and> \<not> hasRunInitialScan (instances w i) \<longrightarrow>
        scans (exec (initialTwice i el ready results locate el' ready') w)
          = scans w @ [(i, True), (i, True)]
        \<and> started (exec (initialTwice i el ready results locate el' ready') w)
          = started w @ [(i, True), (i, True)]
        \<and> hasRunInitialScan
            (instances (exec (initialTwice i el ready results locate el' ready') w) i)"
  proof (intro impI)
    assume h: "w = exec evs (initialWorld opts) \<and> drains w = [] \<and> enabled (instances w i)
        \<and> \<not> hasRunInitialScan (instances w i)"
    then have s: "sound w" using sound_exec [OF sound_initial, of evs opts] by blast
    from h have h2: "drains w = []" "enabled (instances w i)"
      "\<not> hasRunInitialScan (instances w i)"
      by blast+
    show "scans (exec (initialTwice i el ready results locate el' ready') w)
          = scans w @ [(i, True), (i, True)]
        \<and> started (exec (initialTwice i el ready results locate el' ready') w)
          = started w @ [(i, True), (i, True)]
        \<and> hasRunInitialScan
            (instances (exec (initialTwice i el ready results locate el' ready') w) i)"
      by (rule initialTwice_run [OF s h2])
  qed
  from a submitted_runAxe [of w i] hasRun_runAxe [of j b w i] hasRun_scan [of d w i results locate]
    initial_thunk_scans(1) [of d w i el] initial_thunk_scans(2) [of d w i ready] g
  show ?thesis by simp
qed

lemma initialTwice_example:
  "drains (initialWorld optsOn) = []"
  "enabled (instances (initialWorld optsOn) 0)"
  "\<not> hasRunInitialScan (instances (initialWorld optsOn) 0)"
  "scans (initialWorld optsOn) = []"
  "started (initialWorld optsOn) = []"
  "drains (exec [RunAxe 0 True] (initialWorld optsOn)) = [((0, True), AwaitImport)]"
  "exec [RunAxe 0 True, ImportResolved 0 (Some readyDiv)] (initialWorld optsOn)
     = step (ImportResolved 0 (Some readyDiv)) (exec [RunAxe 0 True] (initialWorld optsOn))"
  "scanningInitial
     = step (ReadinessResolved 0 True)
         (exec [RunAxe 0 True, ImportResolved 0 (Some readyDiv)] (initialWorld optsOn))"
  "scans (exec [RunAxe 0 True, ImportResolved 0 (Some readyDiv)] (initialWorld optsOn)) = []"
  by (simp_all add: scanningInitial_def machine_defs optsOn_def Let_def)

theorem initial_scan_guard_witness:
  "enabled (instances scanningInitial 0) \<and> \<not> hasRunInitialScan (instances scanningInitial 0)
   \<and> drains scanningInitial = [((0, True), AwaitScan)]
   \<and> submitted (step (RunAxe 0 True) scanningInitial) = [(0, True), (0, True)]
   \<and> hasRunInitialScan (instances afterInitial 0)
   \<and> step (RunAxe 0 True) afterInitial = afterInitial
   \<and> drains (exec [RunAxe 0 True] (initialWorld optsOn)) = [((0, True), AwaitImport)]
   \<and> drains (exec [RunAxe 0 True, ImportResolved 0 (Some readyDiv)] (initialWorld optsOn))
       = [((0, True), AwaitReadiness)]
   \<and> scans scanningInitial = [(0, True)]
   \<and> drains (initialWorld optsOn) = []
   \<and> enabled (instances (initialWorld optsOn) 0)
   \<and> \<not> hasRunInitialScan (instances (initialWorld optsOn) 0)
   \<and> scans (exec (initialTwice 0 readyDiv True [exX] noElement readyDiv False)
              (initialWorld optsOn)) = [(0, True), (0, True)]
   \<and> started (exec (initialTwice 0 readyDiv True [exX] noElement readyDiv False)
                (initialWorld optsOn)) = [(0, True), (0, True)]
   \<and> hasRunInitialScan
       (instances (exec (initialTwice 0 readyDiv True [exX] noElement readyDiv False)
                    (initialWorld optsOn)) 0)"
proof -
  have h: "hasRunInitialScan (instances afterInitial 0)"
    using initial_scan_guard [where w = scanningInitial and i = 0 and d = 0
        and results = "[exX]" and locate = noElement]
      scanningInitial_fields
    by (simp add: afterInitial_def)
  have i: "drains (exec [RunAxe 0 True, ImportResolved 0 (Some readyDiv)] (initialWorld optsOn))
       = [((0, True), AwaitReadiness)]"
    using initial_scan_guard [where w = "exec [RunAxe 0 True] (initialWorld optsOn)" and i = 0
        and d = 0 and el = readyDiv]
      initialTwice_example
    by (simp add: machine_defs optsOn_def Let_def)
  have s: "scans scanningInitial = [(0, True)]"
    using initial_scan_guard [where i = 0 and d = 0 and ready = True
        and w = "exec [RunAxe 0 True, ImportResolved 0 (Some readyDiv)] (initialWorld optsOn)"]
      i initialTwice_example(8,9)
    by simp
  have e: "exec [] (initialWorld optsOn) = initialWorld optsOn" by simp
  show ?thesis
    using initial_scan_guard [where w = scanningInitial and i = 0 and j = 0 and b = True
        and d = 0 and results = "[exX]" and locate = noElement]
      initial_scan_guard [where w = afterInitial and i = 0 and j = 0 and b = True and d = 0
        and results = "[exX]" and locate = noElement]
      initial_scan_guard [where w = "initialWorld optsOn" and evs = "[]" and opts = optsOn
        and i = 0 and el = readyDiv and ready = True and results = "[exX]"
        and locate = noElement and el' = readyDiv and ready' = False]
      scanningInitial_fields h i s initialTwice_example(1-6)
    by simp
qed

section \<open>Properties of \<^verbatim>\<open>cleanup\<close>\<close>

lemma rl_live: "runningImpliesLive w \<longleftrightarrow> (case live w of (s, r) \<Rightarrow> s \<noteq> {} \<or> \<not> r)"
  by (simp add: runningImpliesLive_def live_def)

lemma live_finallyBlock [simp]: "live (finallyBlock t w) = (axeInstances w, False)"
  by (cases t) (simp add: live_def updateInstance_def)

lemma live_catchBlock [simp]: "live (snd (catchBlock t e w)) = live w"
  by (cases t; cases e) (simp_all add: live_def)

lemma rl_afterImport:
  "runningImpliesLive w \<Longrightarrow> runningImpliesLive (snd (settle t (afterImport t x w)))"
  by (cases t; cases x)
    (auto simp: rl_live live_def updateInstance_def Let_def split: option.splits)

lemma rl_afterReadiness:
  "runningImpliesLive w \<Longrightarrow> runningImpliesLive (snd (settle t (afterReadiness t b w)))"
  by (simp add: afterReadiness_def runningImpliesLive_def)

lemma rl_afterScan:
  "runningImpliesLive w \<Longrightarrow> runningImpliesLive (snd (settle t (afterScan t x w)))"
proof (cases t)
  case (Pair i b)
  assume q: "runningImpliesLive w"
  show ?thesis
  proof (cases x)
    case (Inl e)
    then show ?thesis using Pair q
      by (simp add: runningImpliesLive_def updateInstance_def)
  next
    case (Inr rl)
    obtain results locate where rl: "rl = (results, locate)" by (cases rl)
    show ?thesis unfolding Pair Inr rl using q
      by (cases b) (simp_all add: Let_def runningImpliesLive_def updateInstance_def)
  qed
qed

lemma live_suspendAt [simp]: "live (suspendAt d t pw) = live (snd pw)"
  by (cases pw) (simp add: suspendAt_def live_def Let_def)

lemma live_loop [simp]:
  "live (continueLoop d w) = live w"
  "live (processAxeQueue w) = live w"
  by (auto simp: live_def continueLoop_def processAxeQueue_def loopHead_def queuedRun_def Let_def
      split: list.splits)

lemma live_runAxe [simp]: "live (runAxe i b w) = live w"
proof -
  have "live (w \<lparr> axeQueue := q, submitted := s \<rparr>) = live w" for q s
    by (simp add: live_def)
  then show ?thesis by (simp add: runAxe_def)
qed

lemma rl_resume: "runningImpliesLive w \<Longrightarrow> runningImpliesLive (resume d t ph ev w)"
proof -
  assume a: "runningImpliesLive w"
  have c: "live (w \<lparr> consoleOut := c \<rparr>) = live w" for c by (simp add: live_def)
  show ?thesis
    using a rl_afterImport [OF a] rl_afterReadiness [OF a] rl_afterScan [OF a]
    by (cases ph; cases ev) (simp_all add: rl_live c)
qed

lemma rl_cleanup: "runningImpliesLive (cleanup i w)"
  by (auto simp: runningImpliesLive_def cleanup_def Let_def updateInstance_def removeHighlight_def
      split: option.splits)

lemma rl_other:
  "runningImpliesLive (highlightElement i r w) = runningImpliesLive w"
  "runningImpliesLive (removeHighlight w) = runningImpliesLive w"
  "runningImpliesLive (updateInstance i f w) = runningImpliesLive w"
  by (auto simp: runningImpliesLive_def highlightElement_def removeHighlight_def
      updateInstance_def Let_def split: option.splits)

lemma rl_runAxe: "runningImpliesLive w \<Longrightarrow> runningImpliesLive (runAxe i b w)"
  by (simp add: rl_live)

lemma rl_step: "runningImpliesLive w \<Longrightarrow> runningImpliesLive (step ev w)"
  by (cases ev)
    (auto simp: rl_cleanup rl_other rl_resume rl_runAxe resumeDrain_def split: prod.splits)

lemma rl_exec: "runningImpliesLive w \<Longrightarrow> runningImpliesLive (exec evs w)"
  by (induction evs arbitrary: w) (simp_all add: rl_step)

lemma rl_initial: "runningImpliesLive (initialWorld opts)"
  by (simp add: runningImpliesLive_def initialWorld_def)

subsection \<open>Claim C8: the last cleanup resets the running flag\<close>

text \<open>
  Claim C8. \<^verbatim>\<open>cleanup\<close> removes the handle of its instance from \<open>axeInstances\<close>, and
  when the set is empty afterwards \<open>isAxeRunning\<close> is \<open>false\<close>. No other step removes
  a handle, and in every reachable state the flag is set only while the set is not empty.
\<close>

theorem cleanup_resets_running:
  "(axeInstances (cleanup i w) = {} \<longrightarrow> \<not> isAxeRunning (cleanup i w))
   \<and> axeInstances (cleanup i w) = axeInstances w - {i}
   \<and> runningImpliesLive (exec evs (initialWorld opts))"
proof -
  have a: "axeInstances (cleanup i w) = {} \<longrightarrow> \<not> isAxeRunning (cleanup i w)"
    using rl_cleanup [of i w] by (simp add: runningImpliesLive_def)
  have b: "axeInstances (cleanup i w) = axeInstances w - {i}"
    by (simp add: cleanup_def Let_def updateInstance_def removeHighlight_def split: option.splits)
  from a b rl_exec [OF rl_initial] show ?thesis by blast
qed

theorem cleanup_resets_running_witness:
  "isAxeRunning midScan \<and> axeInstances midScan = {0}
   \<and> axeInstances (cleanup 0 midScan) = {} \<and> \<not> isAxeRunning (cleanup 0 midScan)"
  using cleanup_resets_running [of 0 midScan "[]" optsOn] midScan_fields
  by simp

section \<open>Properties of the highlight overlay\<close>

lemma ov_simple [simp]:
  "ov (updateInstance i f w) = ov w"
  "ov (finallyBlock t w) = ov w"
  "ov (snd (catchBlock t e w)) = ov w"
  "ov (snd (afterReadiness t b w)) = ov w"
  by (cases t; cases e; simp add: ov_def updateInstance_def afterReadiness_def)+

lemma ov_settle: "ov (snd (settle t cw)) = ov (snd cw)"
  by (cases cw; cases "fst cw") auto

lemma ov_afterImport [simp]: "ov (snd (afterImport t x w)) = ov w"
  by (cases t; cases x) (auto simp: ov_def updateInstance_def Let_def split: option.splits)

lemma ov_afterScan [simp]: "ov (snd (afterScan t x w)) = ov w"
proof (cases t)
  case (Pair i b)
  show ?thesis
  proof (cases x)
    case (Inl e)
    then show ?thesis using Pair by simp
  next
    case (Inr rl)
    obtain results locate where rl: "rl = (results, locate)" by (cases rl)
    show ?thesis
      unfolding Pair Inr rl
      by (cases b) (simp_all add: Let_def ov_def updateInstance_def)
  qed
qed

lemma ov_suspendAt [simp]: "ov (suspendAt d t pw) = ov (snd pw)"
  by (cases pw) (simp add: suspendAt_def ov_def Let_def)

lemma ov_loop [simp]:
  "ov (continueLoop d w) = ov w"
  "ov (processAxeQueue w) = ov w"
  by (auto simp: ov_def continueLoop_def processAxeQueue_def loopHead_def queuedRun_def Let_def
      split: list.splits)

lemma ov_runAxe [simp]: "ov (runAxe i b w) = ov w"
proof -
  have "ov (w \<lparr> axeQueue := q, submitted := s \<rparr>) = ov w" for q s
    by (simp add: ov_def)
  then show ?thesis by (simp add: runAxe_def)
qed

lemma ov_resume [simp]: "ov (resume d t ph ev w) = ov w"
proof -
  have "ov (w \<lparr> consoleOut := c \<rparr>) = ov w" for c by (simp add: ov_def)
  then show ?thesis
    by (cases ph; cases ev) (simp_all add: ov_settle)
qed

lemma ov_resumeDrain [simp]: "ov (resumeDrain d ev w) = ov w"
  by (simp add: resumeDrain_def split: prod.splits)

lemma singleOverlay_ov: "singleOverlay w \<longleftrightarrow> (case ov w of (b, h) \<Rightarrow> b = (case h of None \<Rightarrow> [] | Some x \<Rightarrow> [x]))"
  by (simp add: singleOverlay_def ov_def)

lemma singleOverlay_removeHighlight:
  "singleOverlay w \<Longrightarrow> bodyOverlays (removeHighlight w) = [] \<and> highlightedElement (removeHighlight w) = None"
  by (auto simp: singleOverlay_def removeHighlight_def split: option.splits)

lemma singleOverlay_highlight:
  "singleOverlay w \<Longrightarrow> singleOverlay (highlightElement i r w)"
  using singleOverlay_removeHighlight [of w]
  by (auto simp: singleOverlay_def highlightElement_def Let_def)

lemma singleOverlay_cleanup:
  "singleOverlay w \<Longrightarrow> singleOverlay (cleanup i w)"
proof -
  assume a: "singleOverlay w"
  have "singleOverlay (w \<lparr> axeInstances := x \<rparr>)" for x
    using a by (simp add: singleOverlay_def)
  from singleOverlay_removeHighlight [OF this] show ?thesis
    by (auto simp: singleOverlay_def cleanup_def Let_def updateInstance_def)
qed

lemma singleOverlay_step: "singleOverlay w \<Longrightarrow> singleOverlay (step ev w)"
proof (cases ev)
  case (Cleanup i)
  assume "singleOverlay w"
  then show ?thesis using Cleanup by (simp add: singleOverlay_cleanup)
next
  case (HighlightElement i r)
  assume "singleOverlay w"
  then show ?thesis using HighlightElement by (simp add: singleOverlay_highlight)
next
  case (RemoveHighlight i)
  assume "singleOverlay w"
  then show ?thesis using RemoveHighlight singleOverlay_removeHighlight [of w]
    by (simp add: singleOverlay_def)
qed (simp_all add: singleOverlay_ov)

lemma singleOverlay_exec: "singleOverlay w \<Longrightarrow> singleOverlay (exec evs w)"
  by (induction evs arbitrary: w) (simp_all add: singleOverlay_step)

lemma singleOverlay_initial: "singleOverlay (initialWorld opts)"
  by (simp add: singleOverlay_def initialWorld_def)

lemma highlight_twice:
  assumes "singleOverlay w" "enableHighlighting (instances w j)"
  shows "\<exists>h. bodyOverlays (highlightElement j r2 (highlightElement i r1 w)) = [h]
           \<and> highlightedElement (highlightElement j r2 (highlightElement i r1 w)) = Some h
           \<and> elementId h = ''axe-highlight-overlay'' \<and> position h = ''fixed''
           \<and> styleTop h = rectTop r2 \<and> styleLeft h = rectLeft r2
           \<and> styleWidth h = rectWidth r2 \<and> styleHeight h = rectHeight r2
           \<and> pointerEvents h = ''none''"
proof -
  let ?w1 = "highlightElement i r1 w"
  have s1: "singleOverlay ?w1" using assms(1) by (rule singleOverlay_highlight)
  have e1: "enableHighlighting (instances ?w1 j)"
    using assms(2) by (simp add: highlightElement_def removeHighlight_def Let_def split: option.splits)
  show ?thesis
    using singleOverlay_removeHighlight [OF s1] e1
    by (simp add: highlightElement_def Let_def)
qed

subsection \<open>Claim C10: one overlay at most\<close>

text \<open>
  Claim C10 says that two calls of \<^verbatim>\<open>highlightElement\<close> leave exactly one overlay.
  With \<^verbatim>\<open>enableHighlighting\<close> off the function returns before it does anything, and
  the body holds no overlay after the two calls.
\<close>

theorem highlight_disabled_counterexample:
  "bodyOverlays (highlightElement 0 rectB (highlightElement 0 rectA (initialWorld optsNoHighlight)))
     = []
   \<and> length (bodyOverlays (highlightElement 0 rectB
               (highlightElement 0 rectA (initialWorld optsNoHighlight)))) \<noteq> 1"
  by (simp add: highlightElement_def initialWorld_def useAccessibility_def optsNoHighlight_def)

text \<open>
  Claim C10, amended. In every reachable state the body holds at most one overlay, the
  one \<open>highlightedElement\<close> refers to. A call of \<^verbatim>\<open>highlightElement\<close> by an instance
  with highlighting enabled, after any other call of it, leaves exactly one overlay: a
  fixed-position element with the bounding box of the second element and
  \<^verbatim>\<open>pointer-events: none\<close>. With highlighting disabled the call changes nothing.
  \<^verbatim>\<open>removeHighlight\<close> leaves no overlay and an empty reference, and changes nothing
  when the reference is empty.
\<close>

theorem highlight_overlay_single:
  "singleOverlay (exec evs (initialWorld opts))
   \<and> length (bodyOverlays (exec evs (initialWorld opts))) \<le> 1
   \<and> (enableHighlighting (instances (exec evs (initialWorld opts)) j) \<longrightarrow>
        (\<exists>h. bodyOverlays (highlightElement j r2 (highlightElement i r1 (exec evs (initialWorld opts))))
               = [h]
           \<and> highlightedElement (highlightElement j r2 (highlightElement i r1 (exec evs (initialWorld opts))))
               = Some h
           \<and> elementId h = ''axe-highlight-overlay'' \<and> position h = ''fixed''
           \<and> styleTop h = rectTop r2 \<and> styleLeft h = rectLeft r2
           \<and> styleWidth h = rectWidth r2 \<and> styleHeight h = rectHeight r2
           \<and> pointerEvents h = ''none''))
   \<and> (\<not> enableHighlighting (instances (exec evs (initialWorld opts)) i) \<longrightarrow>
        highlightElement i r1 (exec evs (initialWorld opts)) = exec evs (initialWorld opts))
   \<and> bodyOverlays (removeHighlight (exec evs (initialWorld opts))) = []
   \<and> highlightedElement (removeHighlight (exec evs (initialWorld opts))) = None
   \<and> (highlightedElement (exec evs (initialWorld opts)) = None \<longrightarrow>
        removeHighlight (exec evs (initialWorld opts)) = exec evs (initialWorld opts))"
proof -
  let ?w = "exec evs (initialWorld opts)"
  have s: "singleOverlay ?w"
    by (rule singleOverlay_exec) (rule singleOverlay_initial)
  have l: "length (bodyOverlays ?w) \<le> 1"
    using s by (simp add: singleOverlay_def split: option.splits)
  have off: "\<not> enableHighlighting (instances ?w i) \<longrightarrow> highlightElement i r1 ?w = ?w"
    by (simp add: highlightElement_def)
  have none: "highlightedElement ?w = None \<longrightarrow> removeHighlight ?w = ?w"
    by (simp add: removeHighlight_def)
  from s l off none highlight_twice [OF s, of j r2 i r1] singleOverlay_removeHighlight [OF s]
  show ?thesis by blast
qed

theorem highlight_overlay_single_witness:
  "enableHighlighting (instances (exec [HighlightElement 1 rectA] (initialWorld optsOn)) 0)
   \<and> bodyOverlays (highlightElement 0 rectB (highlightElement 0 rectA
         (exec [HighlightElement 1 rectA] (initialWorld optsOn))))
       = [\<lparr> nodeId = 2, elementId = ''axe-highlight-overlay'', position = ''fixed'',
            styleTop = 200, styleLeft = 0, styleWidth = 120, styleHeight = 24,
            pointerEvents = ''none'', zIndex = 10000 \<rparr>]
   \<and> length (bodyOverlays (exec [HighlightElement 1 rectA] (initialWorld optsOn))) = 1
   \<and> bodyOverlays (removeHighlight (exec [HighlightElement 1 rectA] (initialWorld optsOn))) = []
   \<and> highlightedElement (initialWorld optsOn) = None
   \<and> removeHighlight (initialWorld optsOn) = initialWorld optsOn"
proof -
  have c: "bodyOverlays (highlightElement 0 rectB (highlightElement 0 rectA
         (exec [HighlightElement 1 rectA] (initialWorld optsOn))))
       = [\<lparr> nodeId = 2, elementId = ''axe-highlight-overlay'', position = ''fixed'',
            styleTop = 200, styleLeft = 0, styleWidth = 120, styleHeight = 24,
            pointerEvents = ''none'', zIndex = 10000 \<rparr>]"
    by (simp add: machine_defs optsOn_def rectA_def rectB_def Let_def)
  have e: "enableHighlighting (instances (exec [HighlightElement 1 rectA] (initialWorld optsOn)) 0)"
    by (simp add: machine_defs optsOn_def Let_def)
  have n: "length (bodyOverlays (exec [HighlightElement 1 rectA] (initialWorld optsOn))) = 1"
    by (simp add: machine_defs optsOn_def Let_def)
  have i: "highlightedElement (initialWorld optsOn) = None"
    by (simp add: initialWorld_def)
  show ?thesis
    using highlight_overlay_single [of "[HighlightElement 1 rectA]" optsOn 0 rectB 0 rectA]
      highlight_overlay_single [of "[]" optsOn 0 rectB 0 rectA]
      c e n i
    by simp
qed

end
